theory Spec2Isabelle
  imports Main "HOL-Library.Word"
begin

unbundle bit_operations_syntax

section \<open>Machine types\<close>

type_synonym byte = "8 word"
type_synonym u16 = "16 word"
type_synonym u32 = "32 word"
type_synonym u64 = "64 word"

section \<open>Pxr24: conversion from 32-bit to 24-bit floating-point numbers\<close>

text \<open>
  \<^verbatim>\<open>floatToFloat24\<close> of \<^verbatim>\<open>ImfPxr24Compressor.cpp\<close>. The source moves the float into a
  union and works on the \<^verbatim>\<open>unsigned int\<close> member only, so the argument of the model is
  the 32-bit pattern of the float. The local variables keep the names of the source:
  sign \<open>s\<close>, exponent \<open>e\<close>, significand \<open>m\<close> and the 24-bit result \<open>i\<close>.
\<close>

definition floatToFloat24 :: "u32 \<Rightarrow> u32" where
  "floatToFloat24 ui =
    (let s = ui AND 0x80000000;
         e = ui AND 0x7f800000;
         m = ui AND 0x007fffff;
         i = (if e = 0x7f800000
              then (if m \<noteq> 0
                    then (let m' = drop_bit 8 m
                          in drop_bit 8 e OR m' OR (if m' = 0 then 1 else 0))
                    else drop_bit 8 e)
              else (let i' = drop_bit 8 ((e OR m) + (m AND 0x00000080))
                    in if i' \<ge> 0x7f8000 then drop_bit 8 (e OR m) else i'))
     in drop_bit 8 s OR i)"

text \<open>
  The source has no function for the way back: ``conversion back to 32 bits is simply an
  8-bit shift to the left'', which \<^verbatim>\<open>uncompress\<close> performs while it gathers the bytes.
\<close>

definition float24ToFloat :: "u32 \<Rightarrow> u32" where
  "float24ToFloat i = push_bit 8 i"

text \<open>Classification of an IEEE-754 binary32 pattern by its exponent and significand fields.\<close>

definition isInfinity :: "u32 \<Rightarrow> bool" where
  "isInfinity w \<longleftrightarrow> w AND 0x7f800000 = 0x7f800000 \<and> w AND 0x007fffff = 0"

definition isNaN :: "u32 \<Rightarrow> bool" where
  "isNaN w \<longleftrightarrow> w AND 0x7f800000 = 0x7f800000 \<and> w AND 0x007fffff \<noteq> 0"

definition isFinite :: "u32 \<Rightarrow> bool" where
  "isFinite w \<longleftrightarrow> w AND 0x7f800000 \<noteq> 0x7f800000"

definition signOf :: "u32 \<Rightarrow> u32" where
  "signOf w = w AND 0x80000000"


section \<open>Pxr24: the compressor\<close>

subsection \<open>Data\<close>

datatype PixelType = UINT | HALF | FLOAT

record Channel =
  pixelType :: PixelType
  xSampling :: int
  ySampling :: int

record Box2i =
  min_x :: int
  min_y :: int
  max_x :: int
  max_y :: int

text \<open>
  The fields of \<^verbatim>\<open>Pxr24Compressor\<close> that the constructor sets. The two scratch buffers
  \<^verbatim>\<open>_tmpBuffer\<close> and \<^verbatim>\<open>_outBuffer\<close> are local values of the model functions below.
\<close>

record Pxr24Compressor =
  maxScanLineSize :: nat
  numScanLines :: nat
  channels :: "Channel list"
  minX :: int
  maxX :: int
  maxY :: int

datatype Pxr24Error = CompressionFailure | DecompressionFailure | NotEnoughData | TooMuchData

text \<open>
  What the compressor calls and this repository does not hold: \<^verbatim>\<open>modp\<close> of Imath,
  \<^verbatim>\<open>numSamples\<close> of ImfMisc and the two zlib entry points. They are parameters of the
  model. \<open>zcompress\<close> is \<^verbatim>\<open>::compress\<close> on a destination of \<^verbatim>\<open>compressBound\<close> bytes,
  \<open>None\<close> when the result is not \<^verbatim>\<open>Z_OK\<close>; \<open>zuncompress cap\<close> is \<^verbatim>\<open>::uncompress\<close> on a
  destination of \<open>cap\<close> bytes, and the length of its result is the value it stores back
  into \<^verbatim>\<open>tmpSize\<close>.
\<close>

record Externals =
  modp :: "int \<Rightarrow> int \<Rightarrow> int"
  numSamples :: "int \<Rightarrow> int \<Rightarrow> int \<Rightarrow> int"
  zcompress :: "byte list \<Rightarrow> byte list option"
  zuncompress :: "nat \<Rightarrow> byte list \<Rightarrow> byte list option"

subsection \<open>Samples in memory\<close>

text \<open>
  The source copies a pixel byte by byte between the stream and an \<^verbatim>\<open>unsigned int\<close>, and
  reads and writes a \<^verbatim>\<open>half\<close> through its 16 bits. The host is little-endian, the only
  byte order on which the source enables its codecs; the round trip does not depend on
  the choice, since both directions use the same order.
\<close>

definition readUInt :: "byte list \<Rightarrow> u32" where
  "readUInt bs = ucast (bs ! 0) OR push_bit 8 (ucast (bs ! 1))
                 OR push_bit 16 (ucast (bs ! 2)) OR push_bit 24 (ucast (bs ! 3))"

definition writeUInt :: "u32 \<Rightarrow> byte list" where
  "writeUInt w = [ucast w, ucast (drop_bit 8 w), ucast (drop_bit 16 w), ucast (drop_bit 24 w)]"

definition readHalfBits :: "byte list \<Rightarrow> u16" where
  "readHalfBits bs = ucast (bs ! 0) OR push_bit 8 (ucast (bs ! 1))"

definition writeHalfBits :: "u16 \<Rightarrow> byte list" where
  "writeHalfBits h = [ucast h, ucast (drop_bit 8 h)]"

subsection \<open>Compression of one channel of one scan line\<close>

text \<open>
  The loop over the \<open>n\<close> samples of a channel: \<open>rd\<close> reads the next pixel of \<open>sz\<close> bytes
  from \<^verbatim>\<open>inPtr\<close> as an unsigned integer, the difference to \<^verbatim>\<open>previousPixel\<close> is computed on
  \<^verbatim>\<open>unsigned int\<close>, and the list of the differences is returned in sample order.
\<close>

fun deltaEncode :: "(byte list \<Rightarrow> u32) \<Rightarrow> nat \<Rightarrow> nat \<Rightarrow> u32 \<Rightarrow> byte list \<Rightarrow> u32 list" where
  "deltaEncode rd sz 0 previousPixel inPtr = []"
| "deltaEncode rd sz (Suc n) previousPixel inPtr =
     (let pixel = rd (take sz inPtr);
          diff = pixel - previousPixel
      in diff # deltaEncode rd sz n pixel (drop sz inPtr))"

text \<open>
  The pointers \<^verbatim>\<open>ptr[0]\<close>, \<^verbatim>\<open>ptr[1]\<close>, \<open>\<dots>\<close> start \<open>n\<close> bytes apart and each advances by
  one per sample, so they fill consecutive planes of \<open>n\<close> bytes: plane \<open>k\<close> holds one byte
  of every difference, the most significant byte first. The result is the new \<^verbatim>\<open>inPtr\<close>
  and the bytes written between the old and the new \<^verbatim>\<open>tmpBufferEnd\<close>.
\<close>

definition bytesPerSample :: "PixelType \<Rightarrow> nat" where
  "bytesPerSample t = (case t of UINT \<Rightarrow> 4 | HALF \<Rightarrow> 2 | FLOAT \<Rightarrow> 4)"

definition planesPerSample :: "PixelType \<Rightarrow> nat" where
  "planesPerSample t = (case t of UINT \<Rightarrow> 4 | HALF \<Rightarrow> 2 | FLOAT \<Rightarrow> 3)"

definition compressChannel :: "PixelType \<Rightarrow> nat \<Rightarrow> byte list \<Rightarrow> byte list \<times> byte list" where
  "compressChannel t n inPtr =
     (case t of
        UINT \<Rightarrow>
          (let diffs = deltaEncode readUInt 4 n 0 inPtr
           in (drop (4 * n) inPtr,
               map (\<lambda>diff. ucast (drop_bit 24 diff)) diffs @
               map (\<lambda>diff. ucast (drop_bit 16 diff)) diffs @
               map (\<lambda>diff. ucast (drop_bit 8 diff)) diffs @
               map (\<lambda>diff. ucast diff) diffs))
      | HALF \<Rightarrow>
          (let diffs = deltaEncode (\<lambda>bs. ucast (readHalfBits bs)) 2 n 0 inPtr
           in (drop (2 * n) inPtr,
               map (\<lambda>diff. ucast (drop_bit 8 diff)) diffs @
               map (\<lambda>diff. ucast diff) diffs))
      | FLOAT \<Rightarrow>
          (let diffs = deltaEncode (\<lambda>bs. floatToFloat24 (readUInt bs)) 4 n 0 inPtr
           in (drop (4 * n) inPtr,
               map (\<lambda>diff. ucast (drop_bit 16 diff)) diffs @
               map (\<lambda>diff. ucast (drop_bit 8 diff)) diffs @
               map (\<lambda>diff. ucast diff) diffs)))"

subsection \<open>The traversal shared by both directions\<close>

text \<open>
  \<^verbatim>\<open>compress\<close> and \<^verbatim>\<open>uncompress\<close> run the same two loops: over the scan lines \<open>y\<close> from
  \<open>minY\<close> to \<open>maxY\<close> and, within a line, over the channel list, skipping the channels with
  \<^verbatim>\<open>modp (y, c.ySampling) != 0\<close>. The list below holds, in the order of the visits, the
  type of the visited channel and its number of samples \<open>n\<close>. \<^verbatim>\<open>numSamples\<close> returns an
  \<^verbatim>\<open>int\<close>, and the source uses it as one: a negative \<open>n\<close> would move \<^verbatim>\<open>tmpBufferEnd\<close>
  backwards. The list holds \<open>n\<close> as a natural number, so it describes the source only
  when no visit computes a negative \<open>n\<close>; \<open>samplesNonNegative\<close> says so, and every
  theorem about \<^verbatim>\<open>compress\<close> and \<^verbatim>\<open>uncompress\<close> assumes it for the call it is about.
\<close>

definition traversal ::
  "Externals \<Rightarrow> Channel list \<Rightarrow> int \<Rightarrow> int \<Rightarrow> int \<Rightarrow> int \<Rightarrow> (PixelType \<times> nat) list" where
  "traversal ext cs minX' maxX' minY' maxY' =
     concat (map (\<lambda>y. map (\<lambda>c. (pixelType c, nat (numSamples ext (xSampling c) minX' maxX')))
                           (filter (\<lambda>c. modp ext y (ySampling c) = 0) cs))
                 [minY' .. maxY'])"

fun compressChannels :: "(PixelType \<times> nat) list \<Rightarrow> byte list \<Rightarrow> byte list \<Rightarrow> byte list" where
  "compressChannels [] inPtr tmpBuffer = tmpBuffer"
| "compressChannels ((t, n) # rest) inPtr tmpBuffer =
     (let (inPtr', planes) = compressChannel t n inPtr
      in compressChannels rest inPtr' (tmpBuffer @ planes))"

text \<open>
  \<^verbatim>\<open>Pxr24Compressor::compress\<close>. \<open>inPtr\<close> is the block of \<^verbatim>\<open>inSize\<close> bytes; the result is the
  content of \<^verbatim>\<open>_outBuffer\<close> up to the returned size.
\<close>

definition compress ::
  "Externals \<Rightarrow> Pxr24Compressor \<Rightarrow> byte list \<Rightarrow> Box2i \<Rightarrow> Pxr24Error + byte list" where
  "compress ext cmp inPtr rng =
     (if length inPtr = 0 then Inr []
      else
        let minX' = min_x rng;
            maxX' = min (max_x rng) (maxX cmp);
            minY' = min_y rng;
            maxY' = min (max_y rng) (maxY cmp);
            tmpBuffer = compressChannels (traversal ext (channels cmp) minX' maxX' minY' maxY')
                          inPtr []
        in (case zcompress ext tmpBuffer of
              None \<Rightarrow> Inl CompressionFailure
            | Some outBuffer \<Rightarrow> Inr outBuffer))"

subsection \<open>Decompression of one channel of one scan line\<close>

text \<open>
  The loop over the \<open>n\<close> samples: every difference is added to \<^verbatim>\<open>pixel\<close> on
  \<^verbatim>\<open>unsigned int\<close> and \<open>wr\<close> writes the new value of \<^verbatim>\<open>pixel\<close> at \<^verbatim>\<open>writePtr\<close>.
\<close>

fun deltaDecode :: "(u32 \<Rightarrow> byte list) \<Rightarrow> u32 \<Rightarrow> u32 list \<Rightarrow> byte list" where
  "deltaDecode wr pixel [] = []"
| "deltaDecode wr pixel (diff # diffs) =
     (let pixel' = pixel + diff
      in wr pixel' @ deltaDecode wr pixel' diffs)"

text \<open>
  \<open>p\<close> is the offset of \<^verbatim>\<open>ptr[0]\<close> in \<^verbatim>\<open>_tmpBuffer\<close>; sample \<open>j\<close> reads one byte of each
  plane. The caller has checked that the planes end inside the inflated data.
\<close>

definition uncompressChannel :: "PixelType \<Rightarrow> nat \<Rightarrow> byte list \<Rightarrow> nat \<Rightarrow> byte list" where
  "uncompressChannel t n tmpBuffer p =
     (case t of
        UINT \<Rightarrow>
          deltaDecode writeUInt 0
            (map (\<lambda>j. push_bit 24 (ucast (tmpBuffer ! (p + j))) OR
                       push_bit 16 (ucast (tmpBuffer ! (p + n + j))) OR
                       push_bit 8 (ucast (tmpBuffer ! (p + 2 * n + j))) OR
                       ucast (tmpBuffer ! (p + 3 * n + j))) [0 ..< n])
      | HALF \<Rightarrow>
          deltaDecode (\<lambda>pixel. writeHalfBits (ucast pixel)) 0
            (map (\<lambda>j. push_bit 8 (ucast (tmpBuffer ! (p + j))) OR
                       ucast (tmpBuffer ! (p + n + j))) [0 ..< n])
      | FLOAT \<Rightarrow>
          deltaDecode writeUInt 0
            (map (\<lambda>j. push_bit 24 (ucast (tmpBuffer ! (p + j))) OR
                       push_bit 16 (ucast (tmpBuffer ! (p + n + j))) OR
                       push_bit 8 (ucast (tmpBuffer ! (p + 2 * n + j)))) [0 ..< n]))"

text \<open>
  The state of the loops is the offset \<^verbatim>\<open>tmpBufferEnd\<close> and the bytes written so far at
  \<^verbatim>\<open>_outBuffer\<close>. \<^verbatim>\<open>notEnoughData\<close> is raised before the planes of a channel are read.
\<close>

fun uncompressChannels ::
  "(PixelType \<times> nat) list \<Rightarrow> byte list \<Rightarrow> nat \<Rightarrow> byte list \<Rightarrow> Pxr24Error + nat \<times> byte list" where
  "uncompressChannels [] tmpBuffer tmpBufferEnd outBuffer = Inr (tmpBufferEnd, outBuffer)"
| "uncompressChannels ((t, n) # rest) tmpBuffer tmpBufferEnd outBuffer =
     (let tmpBufferEnd' = tmpBufferEnd + planesPerSample t * n
      in if tmpBufferEnd' > length tmpBuffer then Inl NotEnoughData
         else uncompressChannels rest tmpBuffer tmpBufferEnd'
                (outBuffer @ uncompressChannel t n tmpBuffer tmpBufferEnd))"

text \<open>\<^verbatim>\<open>Pxr24Compressor::uncompress\<close>; the inflated data are \<^verbatim>\<open>_tmpBuffer\<close> up to \<^verbatim>\<open>tmpSize\<close>.\<close>

definition uncompress ::
  "Externals \<Rightarrow> Pxr24Compressor \<Rightarrow> byte list \<Rightarrow> Box2i \<Rightarrow> Pxr24Error + byte list" where
  "uncompress ext cmp inPtr rng =
     (if length inPtr = 0 then Inr []
      else
        case zuncompress ext (maxScanLineSize cmp * numScanLines cmp) inPtr of
          None \<Rightarrow> Inl DecompressionFailure
        | Some tmpBuffer \<Rightarrow>
            (let minX' = min_x rng;
                 maxX' = min (max_x rng) (maxX cmp);
                 minY' = min_y rng;
                 maxY' = min (max_y rng) (maxY cmp)
             in (case uncompressChannels (traversal ext (channels cmp) minX' maxX' minY' maxY')
                        tmpBuffer 0 []
                 of Inl err \<Rightarrow> Inl err
                  | Inr (tmpBufferEnd, outBuffer) \<Rightarrow>
                      if tmpBufferEnd < length tmpBuffer then Inl TooMuchData
                      else Inr outBuffer)))"

subsection \<open>What the round trip is stated against\<close>

text \<open>
  The size of the block that \<^verbatim>\<open>compress\<close> reads for a traversal, and the block that the
  round trip gives back: the samples of a \<open>UINT\<close> or \<open>HALF\<close> channel unchanged, every
  sample of a \<open>FLOAT\<close> channel replaced by its 24-bit conversion shifted back by 8 bits.
\<close>

fun blockSize :: "(PixelType \<times> nat) list \<Rightarrow> nat" where
  "blockSize [] = 0"
| "blockSize ((t, n) # rest) = bytesPerSample t * n + blockSize rest"

fun quantizeSamples :: "nat \<Rightarrow> byte list \<Rightarrow> byte list" where
  "quantizeSamples 0 bs = []"
| "quantizeSamples (Suc n) bs =
     writeUInt (float24ToFloat (floatToFloat24 (readUInt (take 4 bs)))) @
     quantizeSamples n (drop 4 bs)"

fun quantizeBlock :: "(PixelType \<times> nat) list \<Rightarrow> byte list \<Rightarrow> byte list" where
  "quantizeBlock [] bs = []"
| "quantizeBlock ((t, n) # rest) bs =
     (if t = FLOAT then quantizeSamples n (take (4 * n) bs)
      else take (bytesPerSample t * n) bs) @
     quantizeBlock rest (drop (bytesPerSample t * n) bs)"

text \<open>
  The assumption on the deflate backend: compression does not fail, a compressed stream
  is never empty (a zlib stream starts with a two-byte header), and decompression into a
  buffer that is large enough gives the data back.
\<close>

definition faithfulDeflate :: "Externals \<Rightarrow> bool" where
  "faithfulDeflate ext \<longleftrightarrow>
     (\<forall>xs. \<exists>ys. zcompress ext xs = Some ys \<and> ys \<noteq> [] \<and>
               (\<forall>cap. length xs \<le> cap \<longrightarrow> zuncompress ext cap ys = Some xs))"

text \<open>
  No visit of the two loops, for this compressor and this rectangle, computes a negative
  number of samples.
\<close>

definition samplesNonNegative :: "Externals \<Rightarrow> Pxr24Compressor \<Rightarrow> Box2i \<Rightarrow> bool" where
  "samplesNonNegative ext cmp rng \<longleftrightarrow>
     (\<forall>y \<in> {min_y rng .. min (max_y rng) (maxY cmp)}.
        \<forall>c \<in> set (channels cmp).
          modp ext y (ySampling c) = 0 \<longrightarrow>
          0 \<le> numSamples ext (xSampling c) (min_x rng) (min (max_x rng) (maxX cmp)))"

definition fullRange :: "Externals \<Rightarrow> Pxr24Compressor \<Rightarrow> Box2i \<Rightarrow> (PixelType \<times> nat) list" where
  "fullRange ext cmp rng =
     traversal ext (channels cmp) (min_x rng) (min (max_x rng) (maxX cmp))
       (min_y rng) (min (max_y rng) (maxY cmp))"

section \<open>FastHuf: the canonical Huffman decoder\<close>

subsection \<open>Data\<close>

text \<open>
  Modelled from the spec: the header \<^verbatim>\<open>ImfFastHuf.h\<close> is not among the sources, so the two
  constants have the values the specification gives them, \<^verbatim>\<open>MAX_CODE_LEN = 58\<close> and
  \<^verbatim>\<open>TABLE_LOOKUP_BITS = 12\<close>, and the members of the class have the types their use in
  \<^verbatim>\<open>ImfFastHuf.cpp\<close> shows: symbols are \<^verbatim>\<open>int\<close>, code lengths are small unsigned numbers,
  the left-justified tables are \<^verbatim>\<open>uint64_t\<close>.
\<close>

definition MAX_CODE_LEN :: nat where
  "MAX_CODE_LEN = 58"

definition TABLE_LOOKUP_BITS :: nat where
  "TABLE_LOOKUP_BITS = 12"

definition allOnes :: u64 where
  "allOnes = 0xffffffffffffffff"

text \<open>
  The exceptions of the decoder, named as in the specification. \<open>UndefinedShift\<close> is not
  an exception of the source: it marks an execution that shifts a 64-bit value by a count
  outside \<open>0..63\<close>, which C++ leaves undefined.
\<close>

datatype FastHufError =
    TableTruncated | TableOverrun | InvalidTable
  | InsufficientBits | InvalidSymbol
  | RleBeforeFirst | RleOverrun | RleInvalid
  | TrailingData
  | UndefinedShift

record FastHufDecoder =
  rleSymbol :: int
  numSymbols :: nat
  minCodeLength :: nat
  maxCodeLength :: nat
  idToSymbol :: "int list"
  ljBase :: "u64 list"
  ljOffset :: "u64 list"
  tableSymbol :: "int list"
  tableCodeLen :: "nat list"
  tableMin :: u64

subsection \<open>Reading the code lengths\<close>

text \<open>
  \<^verbatim>\<open>readBits\<close>: the backing buffer, the number of bits it holds and the position of
  \<^verbatim>\<open>currByte\<close> in the table travel as a triple. The result is the value read and the new
  triple.
\<close>

function readBitsLoop :: "nat \<Rightarrow> byte list \<Rightarrow> u64 \<times> nat \<times> nat \<Rightarrow> u64 \<times> nat \<times> nat" where
  "readBitsLoop numBits table (buffer, bufferNumBits, currByte) =
     (if bufferNumBits < numBits
      then readBitsLoop numBits table
             (push_bit 8 buffer OR ucast (table ! currByte), bufferNumBits + 8, currByte + 1)
      else (buffer, bufferNumBits, currByte))"
  by pat_completeness auto
termination
  by (relation "measure (\<lambda>(numBits, table, buffer, bufferNumBits, currByte). numBits - bufferNumBits)")
     auto

declare readBitsLoop.simps [simp del]

definition readBits :: "nat \<Rightarrow> byte list \<Rightarrow> u64 \<times> nat \<times> nat \<Rightarrow> u64 \<times> u64 \<times> nat \<times> nat" where
  "readBits numBits table st =
     (case readBitsLoop numBits table st of
        (buffer, bufferNumBits, currByte) \<Rightarrow>
          (drop_bit (bufferNumBits - numBits) buffer AND mask numBits,
           buffer, bufferNumBits - numBits, currByte))"

text \<open>
  The locals of the constructor that the scan of the code lengths changes. \<open>symbols\<close> is
  the vector of the symbols with a code length that is not zero, in the order they are
  found, each stored as \<^verbatim>\<open>(symbol << 6) | (codeLen & 63)\<close>.
\<close>

record TableScan =
  currBits :: u64
  currBitCount :: nat
  currByte :: nat
  symbols :: "u64 list"
  scanMinCodeLength :: nat
  scanMaxCodeLength :: nat
  codeCount :: "nat list"

definition initialScan :: TableScan where
  "initialScan =
     \<lparr> currBits = 0, currBitCount = 0, currByte = 0, symbols = [],
       scanMinCodeLength = 255, scanMaxCodeLength = 0,
       codeCount = replicate (MAX_CODE_LEN + 1) 0 \<rparr>"

definition readCode :: "nat \<Rightarrow> byte list \<Rightarrow> TableScan \<Rightarrow> u64 \<times> TableScan" where
  "readCode numBits table st =
     (case readBits numBits table (currBits st, currBitCount st, currByte st) of
        (v, buffer, bufferNumBits, pos) \<Rightarrow>
          (v, st\<lparr> currBits := buffer, currBitCount := bufferNumBits, currByte := pos \<rparr>))"

definition recordSymbol :: "u64 \<Rightarrow> u64 \<Rightarrow> TableScan \<Rightarrow> TableScan" where
  "recordSymbol symbol codeLen st =
     st\<lparr> symbols := symbols st @ [push_bit 6 symbol OR (codeLen AND 63)],
         scanMinCodeLength := (if unat codeLen < scanMinCodeLength st then unat codeLen
                               else scanMinCodeLength st),
         scanMaxCodeLength := (if unat codeLen > scanMaxCodeLength st then unat codeLen
                               else scanMaxCodeLength st),
         codeCount := (codeCount st)[unat codeLen := codeCount st ! unat codeLen + 1] \<rparr>"

lemma readCode_consumes:
  assumes "0 < numBits" and "numBits \<le> 8" and "int (currByte st) < numBytes"
  shows "nat (8 * (numBytes - int (currByte (snd (readCode numBits table st)))))
           + currBitCount (snd (readCode numBits table st))
         < nat (8 * (numBytes - int (currByte st))) + currBitCount st"
proof (cases "currBitCount st < numBits")
  case True
  with assms(2) have "\<not> currBitCount st + 8 < numBits" by simp
  with True have "readBitsLoop numBits table (currBits st, currBitCount st, currByte st)
      = (push_bit 8 (currBits st) OR ucast (table ! currByte st), currBitCount st + 8, currByte st + 1)"
    by (simp add: readBitsLoop.simps)
  with assms show ?thesis by (simp add: readCode_def readBits_def)
next
  case False
  then have "readBitsLoop numBits table (currBits st, currBitCount st, currByte st)
      = (currBits st, currBitCount st, currByte st)"
    by (simp add: readBitsLoop.simps)
  with assms False show ?thesis by (simp add: readCode_def readBits_def)
qed

text \<open>
  The loop \<^verbatim>\<open>for (symbol = minSymbol; symbol <= maxSymbol; symbol++)\<close> of the constructor,
  on \<^verbatim>\<open>uint64_t\<close>. A code of 63 starts a long run of zero lengths, whose length is the next
  8 bits plus \<^verbatim>\<open>SHORTEST_LONG_RUN = 6\<close>; a code of 59 to 62 is a short run; any other code
  that is not zero is the length of the code of \<open>symbol\<close>.
\<close>

function scanSymbols :: "byte list \<Rightarrow> int \<Rightarrow> int \<Rightarrow> u64 \<Rightarrow> TableScan \<Rightarrow> FastHufError + TableScan" where
  "scanSymbols table numBytes maxSymbol symbol st =
     (if symbol \<le> word_of_int maxSymbol then
        if int (currByte st) \<ge> numBytes then Inl TableTruncated
        else
          let codeLen = fst (readCode 6 table st);
              st1 = snd (readCode 6 table st)
          in if codeLen = 63 then
               if int (currByte st1) \<ge> numBytes then Inl TableTruncated
               else
                 let runLen = unat (fst (readCode 8 table st1)) + 6;
                     st2 = snd (readCode 8 table st1)
                 in if symbol + of_nat runLen > word_of_int (maxSymbol + 1) then Inl TableOverrun
                    else scanSymbols table numBytes maxSymbol (symbol + of_nat (runLen - 1) + 1) st2
             else if codeLen \<ge> 59 then
               let runLen = unat codeLen - 59 + 2
               in if symbol + of_nat runLen > word_of_int (maxSymbol + 1) then Inl TableOverrun
                  else scanSymbols table numBytes maxSymbol (symbol + of_nat (runLen - 1) + 1) st1
             else if codeLen \<noteq> 0 then
               scanSymbols table numBytes maxSymbol (symbol + 1) (recordSymbol symbol codeLen st1)
             else scanSymbols table numBytes maxSymbol (symbol + 1) st1
      else Inr st)"
  by pat_completeness auto
termination
proof (relation "measure (\<lambda>(table, numBytes, maxSymbol, symbol, st).
                   nat (8 * (numBytes - int (currByte st))) + currBitCount st)", goal_cases)
  case 1
  show ?case by simp
next
  case (2 table numBytes maxSymbol symbol st codeLen st1 runLen st2)
  then have a: "int (currByte st) < numBytes" and b: "int (currByte st1) < numBytes" by simp_all
  from readCode_consumes[of 6, OF _ _ a, of table] readCode_consumes[of 8, OF _ _ b, of table] 2
  show ?case by simp
next
  case (3 table numBytes maxSymbol symbol st codeLen st1 runLen)
  then have a: "int (currByte st) < numBytes" by simp
  from readCode_consumes[of 6, OF _ _ a, of table] 3 show ?case by simp
next
  case (4 table numBytes maxSymbol symbol st codeLen st1)
  then have a: "int (currByte st) < numBytes" by simp
  from readCode_consumes[of 6, OF _ _ a, of table] 4 show ?case by (simp add: recordSymbol_def)
next
  case (5 table numBytes maxSymbol symbol st codeLen st1)
  then have a: "int (currByte st) < numBytes" by simp
  from readCode_consumes[of 6, OF _ _ a, of table] 5 show ?case by simp
qed

declare scanSymbols.simps [simp del]

subsection \<open>The base table\<close>

text \<open>
  The constructor computes \<^verbatim>\<open>base\<close> in \<^verbatim>\<open>double\<close>. Every value that occurs is a natural
  number or a natural number divided by a power of two, so the arithmetic is modelled
  exactly on \<open>nat\<close>: \<open>roundDouble n\<close> is the binary64 number nearest to \<open>n\<close>, ties to even
  (53 significant bits, the default rounding mode), which is what the conversion of a
  \<^verbatim>\<open>size_t\<close> and the addition of two such numbers return. Multiplying and dividing by a
  power of two and \<^verbatim>\<open>ceil\<close> are exact.
\<close>

fun bitLength :: "nat \<Rightarrow> nat" where
  "bitLength n = (if n = 0 then 0 else Suc (bitLength (n div 2)))"

declare bitLength.simps [simp del]

definition roundDouble :: "nat \<Rightarrow> nat" where
  "roundDouble n =
     (if n < 2 ^ 53 then n
      else
        let e = bitLength n - 53;
            q = n div 2 ^ e;
            r = n mod 2 ^ e
        in if 2 * r > 2 ^ e \<or> (2 * r = 2 ^ e \<and> odd q) then (q + 1) * 2 ^ e
           else q * 2 ^ e)"

text \<open>
  \<^verbatim>\<open>countTmp[l] = (double) codeCount[l] * (double) (2ll << (_maxCodeLength - l))\<close>, the sum
  \<^verbatim>\<open>tmp\<close> of \<^verbatim>\<open>countTmp[k]\<close> for \<open>k\<close> from \<open>l + 1\<close> to \<^verbatim>\<open>_maxCodeLength\<close>, and
  \<^verbatim>\<open>base[l] = (uint64_t) ceil (tmp / (double) (2ll << (_maxCodeLength - l)))\<close>. Note that
  \<^verbatim>\<open>2ll << n\<close> is \<open>2\<^sup>n\<^sup>+\<^sup>1\<close>. The outer loop assigns \<^verbatim>\<open>base[l]\<close> for every \<open>l\<close> from
  \<^verbatim>\<open>_minCodeLength\<close> to \<^verbatim>\<open>_maxCodeLength\<close>; the other entries keep the value \<^verbatim>\<open>0xff..ff\<close> of
  the initialisation.
\<close>

definition countTmp :: "nat list \<Rightarrow> nat \<Rightarrow> nat \<Rightarrow> nat" where
  "countTmp cc maxLen l = roundDouble (cc ! l) * 2 ^ (maxLen - l + 1)"

definition sumTmp :: "nat list \<Rightarrow> nat \<Rightarrow> nat \<Rightarrow> nat" where
  "sumTmp cc maxLen l =
     fold (\<lambda>k tmp. roundDouble (tmp + countTmp cc maxLen k)) [l + 1 ..< maxLen + 1] 0"

definition baseValue :: "nat list \<Rightarrow> nat \<Rightarrow> nat \<Rightarrow> nat" where
  "baseValue cc maxLen l =
     (sumTmp cc maxLen l + (2 ^ (maxLen - l + 1) - 1)) div 2 ^ (maxLen - l + 1)"

definition computeBase :: "nat list \<Rightarrow> nat \<Rightarrow> nat \<Rightarrow> u64 list" where
  "computeBase cc minLen maxLen =
     fold (\<lambda>l base. base[l := word_of_nat (baseValue cc maxLen l)])
          [minLen ..< maxLen + 1]
          (replicate (MAX_CODE_LEN + 1) allOnes)"

subsection \<open>The offset table and the ids of the symbols\<close>

text \<open>
  \<^verbatim>\<open>offset[_maxCodeLength] = 0\<close>, then \<^verbatim>\<open>offset[i] = offset[i + 1] + codeCount[i + 1]\<close> for
  \<open>i\<close> from \<^verbatim>\<open>_maxCodeLength - 1\<close> down to \<^verbatim>\<open>_minCodeLength\<close>.
\<close>

definition computeOffset :: "nat list \<Rightarrow> nat \<Rightarrow> nat \<Rightarrow> u64 list" where
  "computeOffset cc minLen maxLen =
     fold (\<lambda>i offset. offset[i := offset ! (i + 1) + word_of_nat (cc ! (i + 1))])
          (rev [minLen ..< maxLen])
          ((replicate (MAX_CODE_LEN + 1) 0)[maxLen := 0])"

definition initialMapping :: "u64 list \<Rightarrow> nat \<Rightarrow> nat \<Rightarrow> u64 list" where
  "initialMapping offset minLen maxLen =
     map (\<lambda>i. if minLen \<le> i \<and> i \<le> maxLen then offset ! i else - 1) [0 ..< MAX_CODE_LEN + 1]"

text \<open>
  The loop over \<open>symbols\<close> that fills \<^verbatim>\<open>_idToSymbol\<close>. The array is allocated with
  \<^verbatim>\<open>_numSymbols\<close> entries and not initialised; the model starts it with zeros.
\<close>

fun fillIdToSymbol :: "nat \<Rightarrow> u64 list \<Rightarrow> u64 list \<Rightarrow> int list \<Rightarrow> FastHufError + int list" where
  "fillIdToSymbol n [] mapping ids = Inr ids"
| "fillIdToSymbol n (packed # rest) mapping ids =
     (let codeLen = unat (packed AND 63);
          symbol = sint (ucast (drop_bit 6 packed) :: 32 word)
      in if mapping ! codeLen \<ge> word_of_nat n then Inl InvalidTable
         else fillIdToSymbol n rest
                (mapping[codeLen := mapping ! codeLen + 1])
                (ids[unat (mapping ! codeLen) := symbol]))"

subsection \<open>\<^verbatim>\<open>buildTables\<close>\<close>

definition leftJustifiedBase :: "u64 list \<Rightarrow> u64 list" where
  "leftJustifiedBase base =
     map (\<lambda>i. if base ! i \<noteq> allOnes then push_bit (64 - i) (base ! i) else allOnes)
         [0 ..< MAX_CODE_LEN + 1]"

definition leftJustifiedOffset :: "u64 list \<Rightarrow> u64 list \<Rightarrow> u64 list" where
  "leftJustifiedOffset offset ljb =
     map (\<lambda>i. if i = 0 then offset ! 0 - ljb ! 0
               else offset ! i - drop_bit (64 - i) (ljb ! i))
         [0 ..< MAX_CODE_LEN + 1]"

text \<open>
  The inner loop of the acceleration table for one probe \<open>value\<close>: the first \<open>codeLen\<close>
  from \<^verbatim>\<open>_minCodeLength\<close> to \<^verbatim>\<open>_maxCodeLength\<close> with \<^verbatim>\<open>_ljBase[codeLen] <= value\<close> gives the
  entry, or the exception when its id is not below \<^verbatim>\<open>_numSymbols\<close>. Without such a length
  the entry stays \<open>(0xffff, 0)\<close>. The result is the pair of \<^verbatim>\<open>_tableSymbol[i]\<close> and
  \<^verbatim>\<open>_tableCodeLen[i]\<close>.
\<close>

function tableEntry :: "FastHufDecoder \<Rightarrow> u64 \<Rightarrow> nat \<Rightarrow> FastHufError + int \<times> nat" where
  "tableEntry d value codeLen =
     (if codeLen \<le> maxCodeLength d then
        if ljBase d ! codeLen \<le> value then
          (let id = ljOffset d ! codeLen + drop_bit (64 - codeLen) value
           in if id < word_of_nat (numSymbols d) then Inr (idToSymbol d ! unat id, codeLen)
              else Inl InvalidTable)
        else tableEntry d value (codeLen + 1)
      else Inr (0xffff, 0))"
  by pat_completeness auto
termination
  by (relation "measure (\<lambda>(d, value, codeLen). maxCodeLength d + 1 - codeLen)") auto

declare tableEntry.simps [simp del]

fun tableEntries :: "FastHufDecoder \<Rightarrow> nat list \<Rightarrow> FastHufError + (int \<times> nat) list" where
  "tableEntries d [] = Inr []"
| "tableEntries d (i # is) =
     (case tableEntry d (push_bit (64 - TABLE_LOOKUP_BITS) (word_of_nat i)) (minCodeLength d) of
        Inl err \<Rightarrow> Inl err
      | Inr entry \<Rightarrow>
          (case tableEntries d is of
             Inl err \<Rightarrow> Inl err
           | Inr entries \<Rightarrow> Inr (entry # entries)))"

function findMinIdx :: "u64 list \<Rightarrow> int \<Rightarrow> int" where
  "findMinIdx ljb minIdx =
     (if minIdx > 0 \<and> ljb ! nat minIdx = allOnes then findMinIdx ljb (minIdx - 1) else minIdx)"
  by pat_completeness auto
termination
  by (relation "measure (\<lambda>(ljb, minIdx). nat minIdx)") auto

declare findMinIdx.simps [simp del]

definition buildTables :: "FastHufDecoder \<Rightarrow> u64 list \<Rightarrow> u64 list \<Rightarrow> FastHufError + FastHufDecoder" where
  "buildTables d base offset =
     (let ljb = leftJustifiedBase base;
          d1 = d\<lparr> ljBase := ljb, ljOffset := leftJustifiedOffset offset ljb \<rparr>
      in case tableEntries d1 [0 ..< 2 ^ TABLE_LOOKUP_BITS] of
           Inl err \<Rightarrow> Inl err
         | Inr entries \<Rightarrow>
             (let minIdx = findMinIdx ljb (int TABLE_LOOKUP_BITS)
              in Inr (d1\<lparr> tableSymbol := map fst entries,
                          tableCodeLen := map snd entries,
                          tableMin := (if minIdx < 0 then allOnes else ljb ! nat minIdx) \<rparr>)))"

subsection \<open>The constructor\<close>

text \<open>
  \<^verbatim>\<open>FastHufDecoder::FastHufDecoder\<close>. \<open>table\<close> holds the bytes at the pointer \<^verbatim>\<open>table\<close>, of
  which the caller says that \<open>numBytes\<close> belong to the code book. The result is the decoder
  and the position to which the constructor has moved \<^verbatim>\<open>table\<close>. \<^verbatim>\<open>_numSymbols\<close> is the sum
  of \<^verbatim>\<open>codeCount[0]\<close> to \<^verbatim>\<open>codeCount[MAX_CODE_LEN - 1]\<close>.
\<close>

definition scanTable :: "byte list \<Rightarrow> int \<Rightarrow> int \<Rightarrow> int \<Rightarrow> FastHufError + TableScan" where
  "scanTable table numBytes minSymbol maxSymbol =
     scanSymbols table numBytes maxSymbol (word_of_int minSymbol) initialScan"

definition newFastHufDecoder ::
  "byte list \<Rightarrow> int \<Rightarrow> int \<Rightarrow> int \<Rightarrow> int \<Rightarrow> FastHufError + FastHufDecoder \<times> nat" where
  "newFastHufDecoder table numBytes minSymbol maxSymbol rleSymbol' =
     (case scanTable table numBytes minSymbol maxSymbol of
        Inl err \<Rightarrow> Inl err
      | Inr st \<Rightarrow>
          (let minLen = scanMinCodeLength st;
               maxLen = scanMaxCodeLength st;
               n = sum_list (take MAX_CODE_LEN (codeCount st));
               base = computeBase (codeCount st) minLen maxLen;
               offset = computeOffset (codeCount st) minLen maxLen
           in case fillIdToSymbol n (symbols st) (initialMapping offset minLen maxLen)
                     (replicate n 0) of
                Inl err \<Rightarrow> Inl err
              | Inr ids \<Rightarrow>
                  (case buildTables
                          \<lparr> rleSymbol = rleSymbol', numSymbols = n,
                            minCodeLength = minLen, maxCodeLength = maxLen,
                            idToSymbol = ids, ljBase = [], ljOffset = [],
                            tableSymbol = [], tableCodeLen = [], tableMin = 0 \<rparr>
                          base offset of
                     Inl err \<Rightarrow> Inl err
                   | Inr d \<Rightarrow> Inr (d, currByte st))))"

subsection \<open>The bit stream\<close>

text \<open>
  A shift of a \<^verbatim>\<open>uint64_t\<close> is defined for a count from 0 to 63 only. Where the count is
  computed from the state, the model asks for this range; outside it the result is
  \<open>None\<close>, and the caller reports \<open>UndefinedShift\<close>.
\<close>

definition shiftRight :: "u64 \<Rightarrow> int \<Rightarrow> u64 option" where
  "shiftRight x n = (if 0 \<le> n \<and> n < 64 then Some (drop_bit (nat n) x) else None)"

definition shiftLeft :: "u64 \<Rightarrow> int \<Rightarrow> u64 option" where
  "shiftLeft x n = (if 0 \<le> n \<and> n < 64 then Some (push_bit (nat n) x) else None)"

text \<open>\<^verbatim>\<open>READ64\<close>: eight bytes from position \<open>p\<close> of the source, the first in the top byte.\<close>

definition READ64 :: "byte list \<Rightarrow> nat \<Rightarrow> u64" where
  "READ64 c p =
     push_bit 56 (ucast (c ! p)) OR push_bit 48 (ucast (c ! (p + 1))) OR
     push_bit 40 (ucast (c ! (p + 2))) OR push_bit 32 (ucast (c ! (p + 3))) OR
     push_bit 24 (ucast (c ! (p + 4))) OR push_bit 16 (ucast (c ! (p + 5))) OR
     push_bit 8 (ucast (c ! (p + 6))) OR ucast (c ! (p + 7))"

text \<open>
  The state of \<^verbatim>\<open>decode\<close>: the two 64-bit registers with their bit counts, the position
  \<^verbatim>\<open>currByte\<close> in the source, the bits of the source that are left, and the destination
  with its index. The destination is part of the state because the loop writes it in
  place.
\<close>

record DecodeState =
  buffer :: u64
  bufferNumBits :: int
  bufferBack :: u64
  bufferBackNumBits :: int
  srcByte :: nat
  numSrcBits :: int
  dst :: "u16 list"
  dstIdx :: int

text \<open>
  The loop of \<^verbatim>\<open>refill\<close> that packs the last bytes of the source when fewer than 64 bits
  are left: the result is \<^verbatim>\<open>bufferBack\<close>, \<^verbatim>\<open>currByte\<close> and \<^verbatim>\<open>currBitsLeft\<close>. \<^verbatim>\<open>shift\<close> is a
  \<^verbatim>\<open>uint64_t\<close> that starts at 56 and goes down by 8.
\<close>

function refillTail :: "byte list \<Rightarrow> u64 \<Rightarrow> u64 \<Rightarrow> nat \<Rightarrow> int \<Rightarrow> u64 \<times> nat \<times> int" where
  "refillTail src bufferBack' shift currByte' currBitsLeft =
     (if currBitsLeft > 0
      then refillTail src (bufferBack' OR push_bit (unat shift) (ucast (src ! currByte')))
             (shift - 8) (currByte' + 1) (currBitsLeft - 8)
      else (bufferBack', currByte', currBitsLeft))"
  by pat_completeness auto
termination
  by (relation "measure (\<lambda>(src, bufferBack', shift, currByte', currBitsLeft). nat currBitsLeft)")
     auto

declare refillTail.simps [simp del]

text \<open>
  \<^verbatim>\<open>refill\<close> with \<open>numBits\<close> bits to add at the bottom of \<^verbatim>\<open>buffer\<close>. \<open>refillBack\<close> is the
  block that loads \<^verbatim>\<open>bufferBack\<close> from the source, \<open>consumeBack\<close> the last statements, which
  zero or shift \<^verbatim>\<open>bufferBack\<close> and lower its bit count. The callers set
  \<^verbatim>\<open>bufferNumBits = 64\<close> after the call; the model leaves that to them as well.
\<close>

definition refillBack :: "byte list \<Rightarrow> DecodeState \<Rightarrow> DecodeState" where
  "refillBack src s =
     (if numSrcBits s \<ge> 64
      then s\<lparr> bufferBack := READ64 src (srcByte s),
              bufferBackNumBits := 64,
              srcByte := srcByte s + 8,
              numSrcBits := numSrcBits s - 64 \<rparr>
      else (case refillTail src 0 56 (srcByte s) (numSrcBits s) of
              (bb, pos, left) \<Rightarrow>
                s\<lparr> bufferBack := bb,
                   bufferBackNumBits := 64,
                   srcByte := pos,
                   numSrcBits := (if left < 0 then 0 else left) \<rparr>))"

definition consumeBack :: "int \<Rightarrow> DecodeState \<Rightarrow> DecodeState" where
  "consumeBack numBits s =
     s\<lparr> bufferBack := (if bufferBackNumBits s \<le> numBits then 0
                          else push_bit (nat numBits) (bufferBack s)),
        bufferBackNumBits := bufferBackNumBits s - numBits \<rparr>"

definition refill :: "byte list \<Rightarrow> int \<Rightarrow> DecodeState \<Rightarrow> FastHufError + DecodeState" where
  "refill src numBits s =
     (case shiftRight (bufferBack s) (64 - numBits) of
        None \<Rightarrow> Inl UndefinedShift
      | Some topBits \<Rightarrow>
          (let s1 = s\<lparr> buffer := buffer s OR topBits \<rparr>
           in if bufferBackNumBits s1 < numBits then
                (let numBits' = numBits - bufferBackNumBits s1;
                     s2 = refillBack src s1
                 in case shiftRight (bufferBack s2) (64 - numBits') of
                      None \<Rightarrow> Inl UndefinedShift
                    | Some topBits' \<Rightarrow>
                        Inr (consumeBack numBits' (s2\<lparr> buffer := buffer s2 OR topBits' \<rparr>)))
              else Inr (consumeBack numBits s1)))"

definition refillTo64 :: "byte list \<Rightarrow> DecodeState \<Rightarrow> FastHufError + DecodeState" where
  "refillTo64 src s =
     (case refill src (64 - bufferNumBits s) s of
        Inl err \<Rightarrow> Inl err
      | Inr s' \<Rightarrow> Inr (s'\<lparr> bufferNumBits := 64 \<rparr>))"

subsection \<open>\<^verbatim>\<open>decode\<close>\<close>

text \<open>
  The brute-force search: \<^verbatim>\<open>while (_ljBase[codeLen] > buffer && codeLen <= _maxCodeLength)
  codeLen++\<close>. \<^verbatim>\<open>decode\<close> starts it at \<^verbatim>\<open>TABLE_LOOKUP_BITS + 1\<close>.
\<close>

function searchCodeLen :: "FastHufDecoder \<Rightarrow> u64 \<Rightarrow> nat \<Rightarrow> nat" where
  "searchCodeLen d buf codeLen =
     (if ljBase d ! codeLen > buf \<and> codeLen \<le> maxCodeLength d
      then searchCodeLen d buf (codeLen + 1)
      else codeLen)"
  by pat_completeness auto
termination
  by (relation "measure (\<lambda>(d, buf, codeLen). maxCodeLength d + 1 - codeLen)") auto

declare searchCodeLen.simps [simp del]

text \<open>The id and the symbol of the code of length \<open>codeLen\<close> at the top of \<open>buf\<close>.\<close>

definition searchSymbol :: "FastHufDecoder \<Rightarrow> u64 \<Rightarrow> nat \<Rightarrow> FastHufError + nat \<times> int" where
  "searchSymbol d buf codeLen =
     (if codeLen > maxCodeLength d then Inl InvalidSymbol
      else
        let id = ljOffset d ! codeLen + drop_bit (64 - codeLen) buf
        in if id < word_of_nat (numSymbols d) then Inr (codeLen, idToSymbol d ! unat id)
           else Inl InvalidSymbol)"

text \<open>
  The first half of the loop body: the code length and the symbol of the next code, from
  the acceleration table when \<^verbatim>\<open>_tableMin <= buffer\<close>, else from the search on a buffer
  that has been filled up.
\<close>

definition tableLookup :: "FastHufDecoder \<Rightarrow> u64 \<Rightarrow> nat \<times> int" where
  "tableLookup d buf =
     (let tableIdx = unat (drop_bit (64 - TABLE_LOOKUP_BITS) buf)
      in (tableCodeLen d ! tableIdx, tableSymbol d ! tableIdx))"

definition nextSymbol ::
  "FastHufDecoder \<Rightarrow> byte list \<Rightarrow> DecodeState \<Rightarrow> FastHufError + (nat \<times> int) \<times> DecodeState" where
  "nextSymbol d src s =
     (if tableMin d \<le> buffer s then Inr (tableLookup d (buffer s), s)
      else
        case (if bufferNumBits s < 64 then refillTo64 src s else Inr s) of
          Inl err \<Rightarrow> Inl err
        | Inr s1 \<Rightarrow>
            (case searchSymbol d (buffer s1)
                    (searchCodeLen d (buffer s1) (TABLE_LOOKUP_BITS + 1)) of
               Inl err \<Rightarrow> Inl err
             | Inr found \<Rightarrow> Inr (found, s1)))"

text \<open>
  The branch \<^verbatim>\<open>if (symbol == _rleSymbol)\<close>: make sure that 8 bits are in the buffer, read
  them as \<^verbatim>\<open>rleCount\<close>, make the three checks in the order of the source, copy
  \<^verbatim>\<open>dst[dstIdx - 1]\<close> to the next \<^verbatim>\<open>rleCount\<close> elements and drop the 8 bits.
\<close>

fun copyRun :: "u16 list \<Rightarrow> int \<Rightarrow> nat \<Rightarrow> nat \<Rightarrow> u16 list" where
  "copyRun dst' dstIdx' i 0 = dst'"
| "copyRun dst' dstIdx' i (Suc k) =
     copyRun (dst'[nat (dstIdx' + int i) := dst' ! nat (dstIdx' - 1)]) dstIdx' (Suc i) k"

definition rleRun ::
  "byte list \<Rightarrow> int \<Rightarrow> DecodeState \<Rightarrow> FastHufError + DecodeState" where
  "rleRun src numDstElems s =
     (case (if bufferNumBits s < 8 then refillTo64 src s else Inr s) of
        Inl err \<Rightarrow> Inl err
      | Inr s1 \<Rightarrow>
          (let rleCount = uint (drop_bit 56 (buffer s1))
           in if dstIdx s1 < 1 then Inl RleBeforeFirst
              else if dstIdx s1 + rleCount > numDstElems then Inl RleOverrun
              else if rleCount \<le> 0 then Inl RleInvalid
              else Inr (s1\<lparr> dst := copyRun (dst s1) (dstIdx s1) 0 (nat rleCount),
                             dstIdx := dstIdx s1 + rleCount,
                             buffer := push_bit 8 (buffer s1),
                             bufferNumBits := bufferNumBits s1 - 8 \<rparr>)))"

text \<open>
  One pass through the body of \<^verbatim>\<open>while (dstIdx < numDstElems)\<close>, in the order of the
  source: find the next symbol, shift its code out of the buffer (\<open>consumeCode\<close>), expand
  the run or store the symbol (\<open>emitSymbol\<close>), and fill the buffer up when fewer than
  \<^verbatim>\<open>TABLE_LOOKUP_BITS\<close> bits are left (\<open>topUp\<close>). An exception leaves the function at once,
  so what it leaves behind in \<^verbatim>\<open>dst\<close> is the destination of the state in which it is
  raised; the error value carries it.
\<close>

definition consumeCode :: "nat \<Rightarrow> DecodeState \<Rightarrow> DecodeState" where
  "consumeCode codeLen s =
     s\<lparr> buffer := push_bit codeLen (buffer s),
        bufferNumBits := bufferNumBits s - int codeLen \<rparr>"

definition storeSymbol :: "int \<Rightarrow> DecodeState \<Rightarrow> DecodeState" where
  "storeSymbol symbol s =
     s\<lparr> dst := (dst s)[nat (dstIdx s) := word_of_int symbol],
        dstIdx := dstIdx s + 1 \<rparr>"

definition emitSymbol ::
  "FastHufDecoder \<Rightarrow> byte list \<Rightarrow> int \<Rightarrow> int \<Rightarrow> DecodeState \<Rightarrow> FastHufError + DecodeState" where
  "emitSymbol d src numDstElems symbol s =
     (if symbol = rleSymbol d then rleRun src numDstElems s
      else Inr (storeSymbol symbol s))"

definition topUp :: "byte list \<Rightarrow> DecodeState \<Rightarrow> FastHufError + DecodeState" where
  "topUp src s =
     (if bufferNumBits s < int TABLE_LOOKUP_BITS then refillTo64 src s else Inr s)"

definition decodeStep ::
  "FastHufDecoder \<Rightarrow> byte list \<Rightarrow> int \<Rightarrow> DecodeState \<Rightarrow> FastHufError \<times> u16 list + DecodeState" where
  "decodeStep d src numDstElems s =
     (case nextSymbol d src s of
        Inl err \<Rightarrow> Inl (err, dst s)
      | Inr ((codeLen, symbol), s1) \<Rightarrow>
          (case emitSymbol d src numDstElems symbol (consumeCode codeLen s1) of
             Inl err \<Rightarrow> Inl (err, dst s1)
           | Inr s3 \<Rightarrow>
               (case topUp src s3 of
                  Inl err \<Rightarrow> Inl (err, dst s3)
                | Inr s4 \<Rightarrow> Inr s4)))"

lemma refill_dstIdx:
  assumes "refill src n s = Inr s'"
  shows "dstIdx s' = dstIdx s"
proof -
  have fetch: "dstIdx (refillBack src a) = dstIdx a" for a
    by (simp add: refillBack_def split: prod.splits)
  have cons: "dstIdx (consumeBack k a) = dstIdx a" for k a
    by (simp add: consumeBack_def)
  from assms obtain topBits where t: "shiftRight (bufferBack s) (64 - n) = Some topBits"
    by (cases "shiftRight (bufferBack s) (64 - n)") (simp_all add: refill_def)
  show ?thesis
  proof (cases "bufferBackNumBits s < n")
    case False
    with assms t have "s' = consumeBack n (s\<lparr> buffer := buffer s OR topBits \<rparr>)"
      by (simp add: refill_def)
    then show ?thesis by (simp add: cons)
  next
    case True
    define s2 where "s2 = refillBack src (s\<lparr> buffer := buffer s OR topBits \<rparr>)"
    from assms t True obtain topBits' where
      "s' = consumeBack (n - bufferBackNumBits s) (s2\<lparr> buffer := buffer s2 OR topBits' \<rparr>)"
      by (cases "shiftRight (bufferBack s2) (64 - (n - bufferBackNumBits s))")
         (auto simp: refill_def Let_def s2_def)
    then show ?thesis by (simp add: cons s2_def fetch)
  qed
qed

lemma refillTo64_dstIdx:
  assumes "refillTo64 src s = Inr s'"
  shows "dstIdx s' = dstIdx s"
proof (cases "refill src (64 - bufferNumBits s) s")
  case (Inl err)
  with assms show ?thesis by (simp add: refillTo64_def)
next
  case (Inr b)
  with assms refill_dstIdx[OF Inr] show ?thesis by (auto simp: refillTo64_def)
qed

lemma nextSymbol_dstIdx:
  assumes "nextSymbol d src s = Inr (found, s')"
  shows "dstIdx s' = dstIdx s"
  using assms
  by (auto simp: nextSymbol_def split: sum.splits if_splits dest: refillTo64_dstIdx)

lemma rleRun_advances:
  assumes "rleRun src numDstElems s = Inr s'"
  shows "dstIdx s < dstIdx s'"
proof -
  obtain s1 where s1: "(if bufferNumBits s < 8 then refillTo64 src s else Inr s) = Inr s1"
    using assms by (auto simp: rleRun_def split: sum.splits)
  then have idx: "dstIdx s1 = dstIdx s"
    by (auto split: if_splits dest: refillTo64_dstIdx)
  from assms s1 have "0 < uint (drop_bit 56 (buffer s1))"
    and "dstIdx s' = dstIdx s1 + uint (drop_bit 56 (buffer s1))"
    by (auto simp: rleRun_def Let_def order.strict_iff_order split: if_splits)
  with idx show ?thesis by simp
qed

lemma emitSymbol_advances:
  assumes "emitSymbol d src numDstElems symbol s = Inr s'"
  shows "dstIdx s < dstIdx s'"
  using assms
  by (auto simp: emitSymbol_def storeSymbol_def split: if_splits dest: rleRun_advances)

lemma topUp_dstIdx:
  assumes "topUp src s = Inr s'"
  shows "dstIdx s' = dstIdx s"
  using assms by (auto simp: topUp_def split: if_splits dest: refillTo64_dstIdx)

lemma decodeStep_advances:
  assumes "decodeStep d src numDstElems s = Inr s'"
  shows "dstIdx s < dstIdx s'"
proof -
  from assms obtain codeLen symbol s1 s3 where
        "nextSymbol d src s = Inr ((codeLen, symbol), s1)"
    and "emitSymbol d src numDstElems symbol (consumeCode codeLen s1) = Inr s3"
    and "topUp src s3 = Inr s'"
    by (auto simp: decodeStep_def split: sum.splits)
  from nextSymbol_dstIdx[OF this(1)] emitSymbol_advances[OF this(2)] topUp_dstIdx[OF this(3)]
  show ?thesis by (simp add: consumeCode_def)
qed

function decodeLoop ::
  "FastHufDecoder \<Rightarrow> byte list \<Rightarrow> int \<Rightarrow> DecodeState \<Rightarrow> FastHufError \<times> u16 list + DecodeState" where
  "decodeLoop d src numDstElems s =
     (if dstIdx s < numDstElems
      then (case decodeStep d src numDstElems s of
              Inl err \<Rightarrow> Inl err
            | Inr s' \<Rightarrow> decodeLoop d src numDstElems s')
      else Inr s)"
  by pat_completeness auto
termination
proof (relation "measure (\<lambda>(d, src, numDstElems, s). nat (numDstElems - dstIdx s))", goal_cases)
  case 1
  show ?case by simp
next
  case (2 d src numDstElems s s')
  from decodeStep_advances[OF 2(2)] 2(1) show ?case by simp
qed

declare decodeLoop.simps [simp del]

text \<open>
  \<^verbatim>\<open>FastHufDecoder::decode\<close>. The function returns nothing; its effect is the content of
  \<^verbatim>\<open>dst\<close> and whether it throws. The result of the model is the exception, if any, and the
  destination as the call leaves it.
\<close>

definition decode ::
  "FastHufDecoder \<Rightarrow> byte list \<Rightarrow> int \<Rightarrow> u16 list \<Rightarrow> int \<Rightarrow> FastHufError option \<times> u16 list" where
  "decode d src numSrcBits' dst' numDstElems =
     (if numSrcBits' < 128 then (Some InsufficientBits, dst')
      else
        case decodeLoop d src numDstElems
               \<lparr> buffer = READ64 src 0, bufferNumBits = 64,
                 bufferBack = READ64 src 8, bufferBackNumBits = 64,
                 srcByte = 16, numSrcBits = numSrcBits' - 128,
                 dst = dst', dstIdx = 0 \<rparr> of
          Inl (err, dst'') \<Rightarrow> (Some err, dst'')
        | Inr s \<Rightarrow>
            if numSrcBits s \<noteq> 0 then (Some TrailingData, dst s)
            else (None, dst s))"


subsection \<open>Notions used in the statements about the constructor\<close>

text \<open>The code length stored in the low 6 bits of an entry of \<open>symbols\<close>.\<close>

definition codeLenOf :: "u64 \<Rightarrow> nat" where
  "codeLenOf packed = unat (packed AND 63)"

text \<open>
  What the scan of the code lengths establishes: \<open>codeCount\<close> has its 59 entries and
  counts the entries of \<open>symbols\<close> by their length, every length is between 1 and
  \<^verbatim>\<open>MAX_CODE_LEN\<close>, and the minimum and maximum are the extreme lengths that occur, or the
  start values 255 and 0 when no symbol has a code.
\<close>

definition scanInv :: "TableScan \<Rightarrow> bool" where
  "scanInv st \<longleftrightarrow>
     length (codeCount st) = MAX_CODE_LEN + 1
     \<and> (\<forall>p \<in> set (symbols st). 1 \<le> codeLenOf p \<and> codeLenOf p \<le> MAX_CODE_LEN
            \<and> scanMinCodeLength st \<le> codeLenOf p \<and> codeLenOf p \<le> scanMaxCodeLength st)
     \<and> (\<forall>l \<le> MAX_CODE_LEN. codeCount st ! l = count_list (map codeLenOf (symbols st)) l)
     \<and> (symbols st = [] \<longrightarrow> scanMinCodeLength st = 255 \<and> scanMaxCodeLength st = 0)
     \<and> (symbols st \<noteq> [] \<longrightarrow>
            (\<exists>p \<in> set (symbols st). codeLenOf p = scanMinCodeLength st) \<and>
            (\<exists>p \<in> set (symbols st). codeLenOf p = scanMaxCodeLength st))"

text \<open>
  The closed form that the specification gives for \<^verbatim>\<open>base[l]\<close>, in the words of the
  specification: the ceiling of the sum of \<open>code_count[k] \<cdot> 2\<^bsup>max_code_len - k\<^esup>\<close> over
  \<open>k > l\<close>, divided by \<open>2\<^bsup>max_code_len - l\<^esup>\<close>. \<open>ceilDiv a b\<close> is the ceiling of \<open>a / b\<close> on
  natural numbers. The constructor computes the same quotient in \<^verbatim>\<open>double\<close>, with both the
  terms and the divisor doubled (\<open>baseValue\<close>).
\<close>

definition ceilDiv :: "nat \<Rightarrow> nat \<Rightarrow> nat" where
  "ceilDiv a b = (a + b - 1) div b"

definition closedFormBase :: "nat list \<Rightarrow> nat \<Rightarrow> nat \<Rightarrow> nat" where
  "closedFormBase cc maxLen l =
     ceilDiv (\<Sum>k = l + 1 ..< maxLen + 1. cc ! k * 2 ^ (maxLen - k)) (2 ^ (maxLen - l))"

subsection \<open>A concrete code book and payload\<close>

text \<open>
  The code book for the symbols 5 to 7 in which 5 and 7 have codes of length 1 and 6 has
  none: the three 6-bit lengths \<open>1, 0, 1\<close> packed into three bytes. The canonical code
  gives 5 the code \<open>0\<close> and 7 the code \<open>1\<close>. \<open>exampleDecoder\<close> is the decoder that the
  constructor builds from it with 7 as the run-length symbol. The payload holds the code
  of 5, the code of 7 and the byte \<open>0x03\<close>, padded with zeros to 128 bits.
\<close>

definition exampleTable :: "byte list" where
  "exampleTable = [0x04, 0x00, 0x40]"

definition exampleCounts :: "nat list" where
  "exampleCounts = (replicate (MAX_CODE_LEN + 1) 0)[1 := 2]"

definition exampleDecoder :: FastHufDecoder where
  "exampleDecoder =
     \<lparr> rleSymbol = 7, numSymbols = 2, minCodeLength = 1, maxCodeLength = 1,
       idToSymbol = [5, 7],
       ljBase = leftJustifiedBase (computeBase exampleCounts 1 1),
       ljOffset = leftJustifiedOffset (computeOffset exampleCounts 1 1)
                    (leftJustifiedBase (computeBase exampleCounts 1 1)),
       tableSymbol = map (\<lambda>i. if i < 2048 then 5 else 7) [0 ..< 2 ^ TABLE_LOOKUP_BITS],
       tableCodeLen = map (\<lambda>i. 1) [0 ..< 2 ^ TABLE_LOOKUP_BITS],
       tableMin = 0 \<rparr>"

definition examplePayload :: "byte list" where
  "examplePayload = [0x40, 0xC0, 0, 0, 0, 0, 0, 0, 0, 0, 0, 0, 0, 0, 0, 0]"

text \<open>What the scan of the three code lengths of \<open>exampleTable\<close> leaves behind.\<close>

definition exampleScan :: TableScan where
  "exampleScan =
     \<lparr> currBits = 0x040040, currBitCount = 6, currByte = 3,
       symbols = [0x141, 0x1C1],
       scanMinCodeLength = 1, scanMaxCodeLength = 1,
       codeCount = exampleCounts \<rparr>"

text \<open>
  A payload that starts with the code of the run-length symbol 7, followed by the count
  byte \<open>0x03\<close>, padded with zeros to 128 bits.
\<close>

definition exampleRunFirst :: "byte list" where
  "exampleRunFirst = [0x81, 0x80, 0, 0, 0, 0, 0, 0, 0, 0, 0, 0, 0, 0, 0, 0]"

text \<open>
  A code book for the symbols 0 to 4 with the code lengths \<open>1, 3, 3, 3, 3\<close>, a complete
  prefix code in which no symbol has a code of length 2.
\<close>

definition exampleGapTable :: "byte list" where
  "exampleGapTable = [0x04, 0x30, 0xC3, 0x0C]"

text \<open>What the scan of \<open>exampleGapTable\<close> leaves behind.\<close>

definition exampleGapScan :: TableScan where
  "exampleGapScan =
     \<lparr> currBits = 0x430C30C, currBitCount = 2, currByte = 4,
       symbols = [1, 67, 131, 195, 259],
       scanMinCodeLength = 1, scanMaxCodeLength = 3,
       codeCount = (replicate (MAX_CODE_LEN + 1) 0)[1 := 1, 3 := 4] \<rparr>"

text \<open>
  The counts of the code lengths \<open>4, 5, 5, 57\<close>, a prefix code whose sums need more than the
  53 significant bits of a \<^verbatim>\<open>double\<close>.
\<close>

definition exampleDeepCounts :: "nat list" where
  "exampleDeepCounts = (replicate (MAX_CODE_LEN + 1) 0)[4 := 1, 5 := 2, 57 := 1]"

subsection \<open>A concrete compressor\<close>

text \<open>
  Concrete values on which the theorems below are instantiated. The stand-in for zlib
  stores the data behind a one-byte header. \<open>modp\<close> and \<open>numSamples\<close> are written as
  Imath and ImfMisc define them for a positive second argument and a positive sampling
  rate, where their \<^verbatim>\<open>divp\<close> is the division that rounds down: \<open>numSamples s a b\<close> counts
  the multiples of \<open>s\<close> from \<open>a\<close> to \<open>b\<close>, and it is \<open>-1\<close> for \<open>s = 1\<close>, \<open>a = 3\<close>, \<open>b = 1\<close>.
\<close>

definition exampleExternals :: Externals where
  "exampleExternals =
     \<lparr> modp = (\<lambda>x y. x - y * (x div y)),
       numSamples = (\<lambda>s a b. b div s - a div s + (if (a div s) * s < a then 0 else 1)),
       zcompress = (\<lambda>xs. Some (0x78 # xs)),
       zuncompress = (\<lambda>cap ys. if length (tl ys) \<le> cap then Some (tl ys) else None) \<rparr>"

definition exampleLossless :: Pxr24Compressor where
  "exampleLossless =
     \<lparr> maxScanLineSize = 14, numScanLines = 2,
       channels = [\<lparr> pixelType = HALF, xSampling = 1, ySampling = 1 \<rparr>,
                   \<lparr> pixelType = UINT, xSampling = 2, ySampling = 1 \<rparr>],
       minX = 0, maxX = 2, maxY = 7 \<rparr>"

definition exampleLossy :: Pxr24Compressor where
  "exampleLossy =
     \<lparr> maxScanLineSize = 12, numScanLines = 2,
       channels = [\<lparr> pixelType = FLOAT, xSampling = 1, ySampling = 2 \<rparr>,
                   \<lparr> pixelType = HALF, xSampling = 1, ySampling = 1 \<rparr>],
       minX = 0, maxX = 1, maxY = 7 \<rparr>"

definition exampleRange :: Box2i where
  "exampleRange = \<lparr> min_x = 0, min_y = 0, max_x = 5, max_y = 1 \<rparr>"

definition exampleBlock28 :: "byte list" where
  "exampleBlock28 = [0x00, 0x3C, 0x00, 0x40, 0x00, 0x42, 0xFF, 0xFF, 0xFF, 0xFF, 0x01, 0x00, 0x00, 0x00,
                     0x00, 0xC0, 0xFF, 0x7B, 0x01, 0x00, 0x00, 0x00, 0x00, 0x80, 0x78, 0x56, 0x34, 0x12]"

definition exampleBlock16 :: "byte list" where
  "exampleBlock16 = [0x00, 0x00, 0x80, 0x3F, 0xFF, 0xFF, 0x7F, 0x7F, 0x00, 0x3C, 0x00, 0x40,
                     0x00, 0x42, 0x00, 0x44]"

section \<open>Properties of the 24-bit conversion\<close>

subsection \<open>Bit masks and their arithmetic reading\<close>

lemma exp_mask_eq: "(0x7f800000::u32) = push_bit 23 (mask 8)" by (simp add: mask_eq_exp_minus_1)
lemma mant_mask_eq: "(0x007fffff::u32) = mask 23" by (simp add: mask_eq_exp_minus_1)
lemma sign_mask_eq: "(0x80000000::u32) = NOT (mask 31)" by (simp add: mask_eq_exp_minus_1)
lemma exp24_mask_eq: "(0x7f8000::u32) = push_bit 15 (mask 8)" by (simp add: mask_eq_exp_minus_1)
lemma abs_mask_eq: "(0x7fffffff::u32) = mask 31" by (simp add: mask_eq_exp_minus_1)

lemma exp_or_mant: "(x::u32) AND 0x7f800000 OR x AND 0x007fffff = x AND 0x7fffffff"
  unfolding exp_mask_eq mant_mask_eq abs_mask_eq
  by (rule bit_word_eqI) (auto simp: bit_simps)

lemma sign_shift_back: "push_bit 8 (drop_bit 8 ((x::u32) AND 0x80000000)) = x AND 0x80000000"
  unfolding sign_mask_eq
  by (rule bit_word_eqI) (auto simp: bit_simps)

lemma decoded_exponent: "push_bit 8 (drop_bit 8 ((x::u32) AND 0x80000000) OR i) AND 0x7f800000 = push_bit 8 (i AND 0x7f8000)"
  unfolding sign_mask_eq exp_mask_eq exp24_mask_eq
  by (rule bit_word_eqI) (auto simp: bit_simps)

lemma decoded_sign: "push_bit 8 (drop_bit 8 ((x::u32) AND 0x80000000) OR i) AND 0x80000000 = x AND 0x80000000" if "i < 0x800000"
proof -
  from that have "take_bit 23 i = i" using less_mask_eq[of i 23] by (simp add: take_bit_eq_mask)
  then obtain j where i: "i = take_bit 23 j" by metis
  show ?thesis
    unfolding sign_mask_eq i
    by (rule bit_word_eqI) (auto simp: bit_simps)
qed

lemma unat_exp: "unat (x AND 0x7f800000 :: u32) = ((unat x div 2^23) mod 2^8) * 2^23"
proof -
  have "x AND 0x7f800000 = push_bit 23 (take_bit 8 (drop_bit 23 x))"
    unfolding exp_mask_eq by (rule bit_word_eqI) (auto simp: bit_simps)
  then have "unat (x AND 0x7f800000) = take_bit 32 (push_bit 23 (take_bit 8 (drop_bit 23 (unat x))))"
    by (simp only: unsigned_push_bit_eq unsigned_take_bit_eq unat_drop_bit_eq) simp
  also have "\<dots> = push_bit 23 (take_bit 8 (drop_bit 23 (unat x)))"
    by (rule take_bit_nat_eq_self) (simp add: push_bit_eq_mult take_bit_eq_mod)
  finally show ?thesis by (simp add: push_bit_eq_mult take_bit_eq_mod drop_bit_eq_div)
qed

lemma unat_abs: "unat (x AND 0x7fffffff :: u32) = unat x mod 2^31"
  unfolding abs_mask_eq by (simp only: flip: take_bit_eq_mask) (simp add: unsigned_take_bit_eq, simp add: take_bit_eq_mod)

lemma finite_abs_less: "(x::u32) AND 0x7f800000 \<noteq> 0x7f800000 \<Longrightarrow> x AND 0x7fffffff < 0x7f800000"
proof -
  assume h: "x AND 0x7f800000 \<noteq> 0x7f800000"
  have e: "(x AND 0x7fffffff) AND 0x7f800000 = x AND 0x7f800000"
    unfolding exp_mask_eq abs_mask_eq by (rule bit_word_eqI) (auto simp: bit_simps)
  have "\<not> 0x7f800000 \<le> x AND 0x7fffffff"
  proof
    assume "0x7f800000 \<le> x AND 0x7fffffff"
    then have "2139095040 \<le> unat x mod 2^31" by (simp add: word_le_nat_alt unat_abs)
    moreover have "unat x mod 2^31 < 2^31" by simp
    ultimately have "(unat x mod 2^(23+8)) div 2^23 = 255"
      by (intro div_nat_eqI) simp_all
    then have "(unat x div 2^23) mod 2^8 = 255" by (simp only: div_exp_mod_exp_eq)
    then have "unat (x AND 0x7f800000) = unat (0x7f800000::u32)" by (simp add: unat_exp)
    with h show False by (simp only: word_unat_eq_iff)
  qed
  then show ?thesis by simp
qed

lemma drop8_less: "(y::u32) < 0x7f800000 \<Longrightarrow> drop_bit 8 y < 0x7f8000"
  by (simp only: word_less_nat_alt unat_drop_bit_eq) (simp add: drop_bit_eq_div)

lemma exp24_all_ones_le: "(i::u32) AND 0x7f8000 = 0x7f8000 \<Longrightarrow> 0x7f8000 \<le> i"
  by (metis word_and_le2)

lemma push8_exp24_inj: "push_bit 8 ((i::u32) AND 0x7f8000) = 0x7f800000 \<Longrightarrow> i AND 0x7f8000 = 0x7f8000"
proof -
  assume "push_bit 8 ((i::u32) AND 0x7f8000) = 0x7f800000"
  then have "drop_bit 8 (push_bit 8 ((i::u32) AND 0x7f8000)) = drop_bit 8 0x7f800000" by simp
  moreover have "drop_bit 8 (push_bit 8 ((i::u32) AND 0x7f8000)) = i AND 0x7f8000"
    unfolding exp24_mask_eq by (rule bit_word_eqI) (auto simp: bit_simps)
  ultimately show ?thesis by simp
qed


lemma mant24_mask_eq: "(0x7fff::u32) = mask 15" by (simp add: mask_eq_exp_minus_1)

lemma floatToFloat24_finite:
  assumes "isFinite x"
  shows "isFinite (float24ToFloat (floatToFloat24 x))"
proof -
  from assms have h: "x AND 0x7f800000 \<noteq> 0x7f800000" unfolding isFinite_def .
  define e where "e = x AND 0x7f800000"
  define m where "m = x AND 0x007fffff"
  define i' where "i' = drop_bit 8 ((e OR m) + (m AND 0x00000080))"
  define i where "i = (if i' \<ge> 0x7f8000 then drop_bit 8 (e OR m) else i')"
  have em: "e OR m = x AND 0x7fffffff" unfolding e_def m_def by (rule exp_or_mant)
  have lt: "i < 0x7f8000"
  proof (cases "i' \<ge> 0x7f8000")
    case True
    then have "i = drop_bit 8 (x AND 0x7fffffff)" by (simp only: i_def em if_True)
    then show ?thesis using drop8_less[OF finite_abs_less[OF h]] by (simp only:)
  next
    case False
    then have "i = i'" by (simp only: i_def if_False)
    with False show ?thesis by (simp only: not_le)
  qed
  have r: "floatToFloat24 x = drop_bit 8 (x AND 0x80000000) OR i"
    unfolding floatToFloat24_def Let_def i_def i'_def e_def m_def
    using h by (simp only: if_False)
  show ?thesis
  proof (rule ccontr)
    assume "\<not> isFinite (float24ToFloat (floatToFloat24 x))"
    then have "push_bit 8 (i AND 0x7f8000) = 0x7f800000"
      by (simp only: isFinite_def float24ToFloat_def r decoded_exponent not_not)
    then have "0x7f8000 \<le> i" by (intro exp24_all_ones_le push8_exp24_inj)
    with lt show False by (blast dest: leD)
  qed
qed

lemma floatToFloat24_infinity:
  assumes "isInfinity x"
  shows "float24ToFloat (floatToFloat24 x) = x"
proof -
  from assms have e: "x AND 0x7f800000 = 0x7f800000" and m: "x AND 0x007fffff = 0"
    unfolding isInfinity_def by blast+
  have "floatToFloat24 x = drop_bit 8 (x AND 0x80000000) OR drop_bit 8 0x7f800000"
    unfolding floatToFloat24_def Let_def
    by (simp only: e m if_True if_False simp_thms)
  then have "float24ToFloat (floatToFloat24 x)
      = push_bit 8 (drop_bit 8 (x AND 0x80000000)) OR push_bit 8 (drop_bit 8 0x7f800000)"
    by (simp only: float24ToFloat_def push_bit_or)
  also have "push_bit 8 (drop_bit 8 (0x7f800000::u32)) = 0x7f800000" by simp
  also have "push_bit 8 (drop_bit 8 (x AND 0x80000000)) OR 0x7f800000
      = x AND 0x80000000 OR (x AND 0x7f800000 OR x AND 0x007fffff)"
    by (simp only: e m sign_shift_back or.right_neutral)
  also have "\<dots> = x"
    unfolding exp_or_mant sign_mask_eq abs_mask_eq by (rule bit_word_eqI) (auto simp: bit_simps)
  finally show ?thesis .
qed

lemma floatToFloat24_nan:
  assumes "isNaN x"
  shows "isNaN (float24ToFloat (floatToFloat24 x)) \<and> floatToFloat24 x AND 0x7fff \<noteq> 0"
proof -
  from assms have e: "x AND 0x7f800000 = 0x7f800000" and m: "x AND 0x007fffff \<noteq> 0"
    unfolding isNaN_def by blast+
  define m' where "m' = drop_bit 8 (x AND 0x007fffff)"
  define k where "k = m' OR (if m' = 0 then 1 else 0)"
  define E :: u32 where "E = drop_bit 8 0x7f800000"
  have E: "E = push_bit 15 (mask 8)" unfolding E_def by (simp add: mask_eq_exp_minus_1)
  have r: "floatToFloat24 x = drop_bit 8 (x AND 0x80000000) OR (E OR k)"
    unfolding floatToFloat24_def Let_def k_def m'_def E_def
    using m by (simp only: e if_True if_False simp_thms or.assoc)
  have k0: "k \<noteq> 0" unfolding k_def by (cases "m' = 0") simp_all
  have kt: "k = take_bit 15 k"
    unfolding k_def m'_def mant_mask_eq by (rule bit_word_eqI) (auto simp: bit_simps)
  have ex: "push_bit 8 (drop_bit 8 (x AND 0x80000000) OR (E OR k)) AND 0x7f800000 = 0x7f800000"
    apply (subst kt) unfolding sign_mask_eq exp_mask_eq E by (rule bit_word_eqI) (auto simp: bit_simps)
  have mant: "push_bit 8 (drop_bit 8 (x AND 0x80000000) OR (E OR k)) AND 0x007fffff = push_bit 8 k"
    apply (subst (1 2) kt) unfolding sign_mask_eq mant_mask_eq E by (rule bit_word_eqI) (auto simp: bit_simps)
  have m24: "(drop_bit 8 (x AND 0x80000000) OR (E OR k)) AND 0x7fff = k"
    apply (subst (1 2) kt) unfolding sign_mask_eq E mant24_mask_eq by (rule bit_word_eqI) (auto simp: bit_simps)
  have pk: "push_bit 8 k \<noteq> 0"
  proof
    assume "push_bit 8 k = 0"
    then have "drop_bit 8 (push_bit 8 k) = 0" by simp
    moreover have "drop_bit 8 (push_bit 8 k) = k"
      apply (subst (1 2) kt) by (rule bit_word_eqI) (auto simp: bit_simps)
    ultimately show False using k0 by simp
  qed
  show ?thesis
    using ex mant pk m24 k0 by (simp only: isNaN_def float24ToFloat_def r simp_thms)
qed



text \<open>
  C3. Special values survive the 24-bit round trip: an infinity comes back as an infinity
  of the same sign, a NaN comes back as a NaN (the significand of the 24-bit pattern is not
  zero, so no NaN turns into an infinity), and a finite number never comes back with an
  exponent field of all ones, so no finite input turns into a NaN or an infinity, also when
  it is close to \<^verbatim>\<open>FLT_MAX\<close> and its significand would round up.
\<close>

theorem float24_special_values:
  "(isInfinity f \<longrightarrow>
      isInfinity (float24ToFloat (floatToFloat24 f)) \<and>
      signOf (float24ToFloat (floatToFloat24 f)) = signOf f)
   \<and> (isNaN f \<longrightarrow>
      isNaN (float24ToFloat (floatToFloat24 f)) \<and> floatToFloat24 f AND 0x7fff \<noteq> 0)
   \<and> (isFinite f \<longrightarrow> isFinite (float24ToFloat (floatToFloat24 f)))"
  using floatToFloat24_infinity[of f] floatToFloat24_nan[of f] floatToFloat24_finite[of f] by simp

theorem float24_special_values_witness:
  "isInfinity 0x7f800000 \<and> float24ToFloat (floatToFloat24 0x7f800000) = 0x7f800000
   \<and> isInfinity 0xff800000 \<and> float24ToFloat (floatToFloat24 0xff800000) = 0xff800000
   \<and> isNaN 0x7f800001 \<and> isNaN (float24ToFloat (floatToFloat24 0x7f800001))
   \<and> floatToFloat24 0x7f800001 = 0x7f8001
   \<and> isFinite 0x7f7fffff \<and> isFinite (float24ToFloat (floatToFloat24 0x7f7fffff))
   \<and> floatToFloat24 0x7f7fffff = 0x7f7fff"
  using float24_special_values[of "0x7f800000"] float24_special_values[of "0xff800000"]
        float24_special_values[of "0x7f800001"] float24_special_values[of "0x7f7fffff"]
  by (simp add: isInfinity_def isNaN_def isFinite_def floatToFloat24_def float24ToFloat_def)


text \<open>
  C7, as the code behaves. \<open>1.0f\<close> (pattern \<open>0x3F800000\<close>) is encoded as \<open>0x3F8000\<close>, high
  16 bits \<open>0x3F80\<close> and low 8 bits \<open>0x00\<close>, and decodes to \<open>1.0f\<close> exactly. The pattern
  \<open>0x3F800100\<close> is \<open>1 + 2\<^sup>-\<^sup>1\<^sup>5\<close>, whose significand fits the 15 bits that are kept: it is
  encoded as \<open>0x3F8001\<close> and decodes to itself, not to \<open>1.0f\<close>. An excess below half a
  unit of the 15th bit is rounded away: \<open>0x3F800040\<close>, which is \<open>1 + 2\<^sup>-\<^sup>1\<^sup>7\<close>, decodes to
  \<open>1.0f\<close>.
\<close>

theorem floatToFloat24_quantization:
  "floatToFloat24 0x3F800000 = 0x3F8000
   \<and> drop_bit 8 (floatToFloat24 0x3F800000) = 0x3F80
   \<and> floatToFloat24 0x3F800000 AND 0xFF = 0x00
   \<and> float24ToFloat (floatToFloat24 0x3F800000) = 0x3F800000
   \<and> floatToFloat24 0x3F800100 = 0x3F8001
   \<and> float24ToFloat (floatToFloat24 0x3F800100) = 0x3F800100
   \<and> float24ToFloat (floatToFloat24 0x3F800040) = 0x3F800000"
  by (simp add: floatToFloat24_def float24ToFloat_def)

text \<open>
  C7, as the claim states it: the claim expects \<open>1 + 2\<^sup>-\<^sup>1\<^sup>5\<close> to decode to \<open>1.0f\<close>. It does
  not.
\<close>

theorem floatToFloat24_quantization_counterexample:
  "float24ToFloat (floatToFloat24 0x3F800100) \<noteq> 0x3F800000"
  by (simp add: floatToFloat24_def float24ToFloat_def)

section \<open>The Pxr24 round trip\<close>

subsection \<open>Bytes of a sample\<close>

lemma length4E:
  assumes "length bs = 4"
  obtains a b c d where "bs = [a, b, c, d]"
  using assms by (auto simp: eval_nat_numeral length_Suc_conv)

lemma length2E:
  assumes "length bs = 2"
  obtains a b where "bs = [a, b]"
  using assms by (auto simp: eval_nat_numeral length_Suc_conv)

lemma byte_ranges:
  obtains "(n::nat) < 8" | "8 \<le> n" "n < 16" | "16 \<le> n" "n < 24" | "24 \<le> n"
  by linarith

lemma writeUInt_readUInt: "length bs = 4 \<Longrightarrow> writeUInt (readUInt bs) = bs"
proof -
  assume "length bs = 4"
  then obtain a b c d where bs: "bs = [a, b, c, d]" by (rule length4E)
  define w :: u32 where "w = ucast a OR push_bit 8 (ucast b) OR push_bit 16 (ucast c) OR push_bit 24 (ucast d)"
  have 1: "ucast w = a" unfolding w_def
    by (rule bit_word_eqI) (auto simp: bit_simps dest: bit_imp_le_length)
  have 2: "ucast (drop_bit 8 w) = b" unfolding w_def
    by (rule bit_word_eqI) (auto simp: bit_simps dest: bit_imp_le_length)
  have 3: "ucast (drop_bit 16 w) = c" unfolding w_def
    by (rule bit_word_eqI) (auto simp: bit_simps dest: bit_imp_le_length)
  have 4: "ucast (drop_bit 24 w) = d" unfolding w_def
    by (rule bit_word_eqI) (auto simp: bit_simps dest: bit_imp_le_length)
  have "readUInt bs = w" unfolding bs readUInt_def w_def by simp
  then show ?thesis unfolding bs writeUInt_def by (simp only: 1 2 3 4)
qed

lemma writeHalfBits_readHalfBits: "length bs = 2 \<Longrightarrow> writeHalfBits (readHalfBits bs) = bs"
proof -
  assume "length bs = 2"
  then obtain a b where bs: "bs = [a, b]" by (rule length2E)
  define w :: u16 where "w = ucast a OR push_bit 8 (ucast b)"
  have 1: "ucast w = a" unfolding w_def
    by (rule bit_word_eqI) (auto simp: bit_simps dest: bit_imp_le_length)
  have 2: "ucast (drop_bit 8 w) = b" unfolding w_def
    by (rule bit_word_eqI) (auto simp: bit_simps dest: bit_imp_le_length)
  have "readHalfBits bs = w" unfolding bs readHalfBits_def w_def by simp
  then show ?thesis unfolding bs writeHalfBits_def by (simp only: 1 2)
qed

lemma gather_scatter_UINT:
  "push_bit 24 (ucast (ucast (drop_bit 24 d) :: byte)) OR push_bit 16 (ucast (ucast (drop_bit 16 d) :: byte))
    OR push_bit 8 (ucast (ucast (drop_bit 8 d) :: byte)) OR ucast (ucast d :: byte) = (d :: u32)"
proof (rule bit_word_eqI)
  fix n assume "n < LENGTH(32)"
  then show "bit (push_bit 24 (ucast (ucast (drop_bit 24 d) :: byte)) OR push_bit 16 (ucast (ucast (drop_bit 16 d) :: byte))
    OR push_bit 8 (ucast (ucast (drop_bit 8 d) :: byte)) OR ucast (ucast d :: byte) :: u32) n = bit d n"
    by (cases n rule: byte_ranges) (auto simp: bit_simps)
qed

lemma gather_scatter_HALF:
  "push_bit 8 (ucast (ucast (drop_bit 8 d) :: byte)) OR ucast (ucast d :: byte) = take_bit 16 (d :: u32)"
proof (rule bit_word_eqI)
  fix n assume "n < LENGTH(32)"
  then show "bit (push_bit 8 (ucast (ucast (drop_bit 8 d) :: byte)) OR ucast (ucast d :: byte) :: u32) n = bit (take_bit 16 d) n"
    by (cases n rule: byte_ranges) (auto simp: bit_simps)
qed

lemma gather_scatter_FLOAT:
  "push_bit 24 (ucast (ucast (drop_bit 16 d) :: byte)) OR push_bit 16 (ucast (ucast (drop_bit 8 d) :: byte))
    OR push_bit 8 (ucast (ucast d :: byte)) = push_bit 8 (d :: u32)"
proof (rule bit_word_eqI)
  fix n assume "n < LENGTH(32)"
  then show "bit (push_bit 24 (ucast (ucast (drop_bit 16 d) :: byte)) OR push_bit 16 (ucast (ucast (drop_bit 8 d) :: byte))
    OR push_bit 8 (ucast (ucast d :: byte)) :: u32) n = bit (push_bit 8 d) n"
    by (cases n rule: byte_ranges) (auto simp: bit_simps)
qed

subsection \<open>Differences on 16 of the 32 bits\<close>

lemma ucast_u16_add: "(ucast ((a::u32) + b) :: u16) = ucast a + ucast b"
proof -
  have "take_bit 16 ((unat a + unat b) mod 2 ^ 32) = take_bit 16 (unat a + unat b)"
    by (simp add: take_bit_eq_mod mod_mod_cancel)
  then have "(word_of_nat ((unat a + unat b) mod 2 ^ 32) :: u16) = word_of_nat (unat a + unat b)"
    by (simp only: word_of_nat_eq_iff len_bit0 len_num1 mult_1_right mult_numeral_left_semiring_numeral num.simps) simp
  then have "(word_of_nat (unat (a + b)) :: u16) = word_of_nat (unat a) + word_of_nat (unat b)"
    by (simp add: unat_word_ariths)
  then show ?thesis by (simp only: of_nat_unat)
qed

lemma ucast_u16_take_bit: "(ucast (take_bit 16 (a::u32)) :: u16) = ucast a"
  by (rule bit_word_eqI) (auto simp: bit_simps)

lemma ucast_u16_ucast: "(ucast (ucast (h::u16) :: u32) :: u16) = h"
  by (rule bit_word_eqI) (auto simp: bit_simps)

lemma ucast_half_step:
  assumes "(ucast (pix :: u32) :: u16) = ucast prev"
  shows "(ucast (pix + take_bit 16 (ucast (h :: u16) - prev)) :: u16) = h"
proof -
  have "(ucast (ucast h - prev + prev) :: u16) = ucast (ucast h - prev) + ucast prev"
    by (rule ucast_u16_add)
  then have "h = ucast (ucast h - prev) + (ucast prev :: u16)"
    by (simp add: ucast_u16_ucast)
  then have "(ucast (ucast h - prev) :: u16) = h - ucast prev"
    by (metis add_diff_cancel_right')
  then show ?thesis using assms by (simp add: ucast_u16_add ucast_u16_take_bit)
qed
subsection \<open>Differences and their sums\<close>

lemma length_deltaEncode: "length (deltaEncode rd sz n prev inp) = n"
  by (induction n arbitrary: prev inp) (simp_all add: Let_def)

lemma roundtrip_UINT:
  "4 * n \<le> length inp \<Longrightarrow>
   deltaDecode writeUInt prev (deltaEncode readUInt 4 n prev inp) = take (4 * n) inp"
proof (induction n arbitrary: prev inp)
  case 0
  then show ?case by simp
next
  case (Suc n)
  then have len: "length (take 4 inp) = 4" and rest: "4 * n \<le> length (drop 4 inp)" by simp_all
  have "take (4 * Suc n) inp = take 4 inp @ take (4 * n) (drop 4 inp)"
    by (simp add: take_add)
  then show ?case
    using Suc.IH[OF rest] writeUInt_readUInt[OF len] by (simp add: Let_def)
qed

lemma roundtrip_HALF:
  "2 * n \<le> length inp \<Longrightarrow> (ucast pix :: u16) = ucast prev \<Longrightarrow>
   deltaDecode (\<lambda>pixel. writeHalfBits (ucast pixel)) pix
     (map (take_bit 16) (deltaEncode (\<lambda>bs. ucast (readHalfBits bs)) 2 n prev inp))
   = take (2 * n) inp"
proof (induction n arbitrary: pix prev inp)
  case 0
  then show ?case by simp
next
  case (Suc n)
  then have len: "length (take 2 inp) = 2" and rest: "2 * n \<le> length (drop 2 inp)" by simp_all
  define h where "h = readHalfBits (take 2 inp)"
  have step: "(ucast (pix + take_bit 16 (ucast h - prev)) :: u16) = h"
    using Suc.prems(2) by (rule ucast_half_step)
  then have nxt: "(ucast (pix + take_bit 16 (ucast h - prev)) :: u16) = ucast (ucast h :: u32)"
    by (simp add: ucast_u16_ucast)
  have "take (2 * Suc n) inp = take (2 + 2 * n) inp" by simp
  also have "\<dots> = take 2 inp @ take (2 * n) (drop 2 inp)"
    by (rule take_add)
  finally have "take (2 * Suc n) inp = take 2 inp @ take (2 * n) (drop 2 inp)" .
  then show ?case
    using Suc.IH[OF rest nxt] writeHalfBits_readHalfBits[OF len] step
    by (simp add: Let_def h_def)
qed

lemma roundtrip_FLOAT:
  "4 * n \<le> length inp \<Longrightarrow>
   deltaDecode writeUInt (push_bit 8 prev)
     (map (push_bit 8) (deltaEncode (\<lambda>bs. floatToFloat24 (readUInt bs)) 4 n prev inp))
   = quantizeSamples n (take (4 * n) inp)"
proof (induction n arbitrary: prev inp)
  case 0
  then show ?case by simp
next
  case (Suc n)
  then have rest: "4 * n \<le> length (drop 4 inp)" by simp
  have t: "take 4 (take (4 * Suc n) inp) = take 4 inp"
    and d: "drop 4 (take (4 * Suc n) inp) = take (4 * n) (drop 4 inp)"
    by (simp_all add: drop_take min_def)
  have acc: "push_bit 8 prev + push_bit 8 (w - prev) = push_bit 8 w" for w :: u32
    by (simp flip: push_bit_add)
  show ?case
    using Suc.IH[OF rest] 
    by (simp add: Let_def acc float24ToFloat_def del: mult_Suc_right) (simp only: t d)
qed

subsection \<open>One channel of one scan line\<close>

lemma fst_compressChannel: "fst (compressChannel t n inp) = drop (bytesPerSample t * n) inp"
  by (cases t) (simp_all add: compressChannel_def bytesPerSample_def Let_def)

lemma length_compressChannel: "length (snd (compressChannel t n inp)) = planesPerSample t * n"
  by (cases t) (simp_all add: compressChannel_def planesPerSample_def Let_def length_deltaEncode)

lemma uncompressChannel_compressChannel:
  assumes "bytesPerSample t * n \<le> length inp"
  shows "uncompressChannel t n (pre @ snd (compressChannel t n inp) @ post) (length pre)
         = quantizeBlock [(t, n)] inp"
proof (cases t)
  case UINT
  define ds where "ds = deltaEncode readUInt 4 n 0 inp"
  have len: "length ds = n" by (simp add: ds_def length_deltaEncode)
  from assms UINT have le: "4 * n \<le> length inp" by (simp add: bytesPerSample_def)
  have "uncompressChannel UINT n (pre @ snd (compressChannel UINT n inp) @ post) (length pre)
        = deltaDecode writeUInt 0 (ds)"
    unfolding uncompressChannel_def compressChannel_def
    apply (simp only: PixelType.case Let_def snd_conv ds_def[symmetric])
    apply (rule arg_cong[where f = "deltaDecode _ 0"])
    using len by (auto simp: list_eq_iff_nth_eq nth_append gather_scatter_UINT)
  then show ?thesis
    unfolding UINT using roundtrip_UINT[OF le, of 0] by (simp add: ds_def bytesPerSample_def)
next
  case HALF
  define ds where "ds = deltaEncode (\<lambda>bs. ucast (readHalfBits bs)) 2 n 0 inp"
  have len: "length ds = n" by (simp add: ds_def length_deltaEncode)
  from assms HALF have le: "2 * n \<le> length inp" by (simp add: bytesPerSample_def)
  have "uncompressChannel HALF n (pre @ snd (compressChannel HALF n inp) @ post) (length pre)
        = deltaDecode (\<lambda>pixel. writeHalfBits (ucast pixel)) 0 (map (take_bit 16) ds)"
    unfolding uncompressChannel_def compressChannel_def
    apply (simp only: PixelType.case Let_def snd_conv ds_def[symmetric])
    apply (rule arg_cong[where f = "deltaDecode _ 0"])
    using len by (auto simp: list_eq_iff_nth_eq nth_append gather_scatter_HALF)
  then show ?thesis
    unfolding HALF using roundtrip_HALF[OF le, of 0 0] by (simp add: ds_def bytesPerSample_def)
next
  case FLOAT
  define ds where "ds = deltaEncode (\<lambda>bs. floatToFloat24 (readUInt bs)) 4 n 0 inp"
  have len: "length ds = n" by (simp add: ds_def length_deltaEncode)
  from assms FLOAT have le: "4 * n \<le> length inp" by (simp add: bytesPerSample_def)
  have "uncompressChannel FLOAT n (pre @ snd (compressChannel FLOAT n inp) @ post) (length pre)
        = deltaDecode writeUInt 0 (map (push_bit 8) ds)"
    unfolding uncompressChannel_def compressChannel_def
    apply (simp only: PixelType.case Let_def snd_conv ds_def[symmetric])
    apply (rule arg_cong[where f = "deltaDecode _ 0"])
    using len by (auto simp: list_eq_iff_nth_eq nth_append gather_scatter_FLOAT)
  then show ?thesis
    unfolding FLOAT using roundtrip_FLOAT[OF le, of 0] by (simp add: ds_def bytesPerSample_def)
qed

subsection \<open>The whole block\<close>

lemma compressChannels_append:
  "compressChannels tr inp acc = acc @ compressChannels tr inp []"
proof (induction tr arbitrary: inp acc)
  case Nil
  then show ?case by simp
next
  case (Cons a tr)
  obtain t n where a: "a = (t, n)" by (cases a)
  show ?case
    unfolding a
    using Cons.IH[of "fst (compressChannel t n inp)" "acc @ snd (compressChannel t n inp)"]
          Cons.IH[of "fst (compressChannel t n inp)" "snd (compressChannel t n inp)"]
    by (simp add: case_prod_beta)
qed

lemma compressChannels_Cons:
  "compressChannels ((t, n) # rest) inp [] =
     snd (compressChannel t n inp) @ compressChannels rest (drop (bytesPerSample t * n) inp) []"
  using compressChannels_append[of rest "fst (compressChannel t n inp)" "snd (compressChannel t n inp)"]
  by (simp add: case_prod_beta fst_compressChannel)

lemma length_compressChannels_le:
  "length (compressChannels tr inp []) \<le> blockSize tr"
proof (induction tr arbitrary: inp)
  case Nil
  then show ?case by simp
next
  case (Cons a tr)
  obtain t n where a: "a = (t, n)" by (cases a)
  have "planesPerSample t * n \<le> bytesPerSample t * n"
    by (cases t) (simp_all add: planesPerSample_def bytesPerSample_def)
  then show ?case
    unfolding a compressChannels_Cons length_append length_compressChannel blockSize.simps
    using Cons.IH[of "drop (bytesPerSample t * n) inp"]
    by linarith
qed

lemma uncompressChannels_compressChannels:
  assumes "blockSize tr \<le> length inp"
  shows "uncompressChannels tr (pre @ compressChannels tr inp [] @ post) (length pre) out
         = Inr (length pre + length (compressChannels tr inp []), out @ quantizeBlock tr inp)"
  using assms
proof (induction tr arbitrary: inp pre out)
  case Nil
  then show ?case by simp
next
  case (Cons a tr)
  obtain t n where a: "a = (t, n)" by (cases a)
  define planes where "planes = snd (compressChannel t n inp)"
  define inp' where "inp' = drop (bytesPerSample t * n) inp"
  define E where "E = compressChannels tr inp' []"
  have enc: "compressChannels (a # tr) inp [] = planes @ E"
    unfolding a planes_def E_def inp'_def by (rule compressChannels_Cons)
  have lp: "length planes = planesPerSample t * n"
    unfolding planes_def by (rule length_compressChannel)
  from Cons.prems have le1: "bytesPerSample t * n \<le> length inp" and le2: "blockSize tr \<le> length inp'"
    by (simp_all add: a inp'_def)
  have ch: "uncompressChannel t n (pre @ planes @ E @ post) (length pre) = quantizeBlock [(t, n)] inp"
    unfolding planes_def by (rule uncompressChannel_compressChannel[OF le1])
  have ih: "uncompressChannels tr ((pre @ planes) @ E @ post) (length (pre @ planes)) out'
        = Inr (length (pre @ planes) + length E, out' @ quantizeBlock tr inp')" for out'
    unfolding E_def by (rule Cons.IH[OF le2])
  have q: "quantizeBlock (a # tr) inp = quantizeBlock [(t, n)] inp @ quantizeBlock tr inp'"
    by (simp add: a inp'_def)
  show ?case
    unfolding enc q
    using ih[of "out @ quantizeBlock [(t, n)] inp"] ch
    by (simp add: a lp add.assoc)
qed

lemma length_quantizeSamples: "length (quantizeSamples n bs) = 4 * n"
  by (induction n arbitrary: bs) (simp_all add: writeUInt_def)

lemma length_quantizeBlock:
  "blockSize tr \<le> length bs \<Longrightarrow> length (quantizeBlock tr bs) = blockSize tr"
proof (induction tr arbitrary: bs)
  case Nil
  then show ?case by simp
next
  case (Cons a tr)
  obtain t n where a: "a = (t, n)" by (cases a)
  from Cons.prems have "blockSize tr \<le> length (drop (bytesPerSample t * n) bs)"
    and "bytesPerSample t * n \<le> length bs" by (simp_all add: a)
  then show ?case
    using Cons.IH[of "drop (bytesPerSample t * n) bs"]
    by (simp add: a length_quantizeSamples bytesPerSample_def)
qed

lemma quantizeBlock_lossless:
  "\<forall>(t, n) \<in> set tr. t \<noteq> FLOAT \<Longrightarrow> quantizeBlock tr bs = take (blockSize tr) bs"
proof (induction tr arbitrary: bs)
  case Nil
  then show ?case by simp
next
  case (Cons a tr)
  obtain t n where a: "a = (t, n)" by (cases a)
  from Cons.prems have "t \<noteq> FLOAT" and "\<forall>(t, n) \<in> set tr. t \<noteq> FLOAT" by (simp_all add: a)
  then show ?case
    using Cons.IH[of "drop (bytesPerSample t * n) bs"]
    by (simp add: a take_add)
qed

lemma traversal_types:
  "(t, n) \<in> set (traversal ext cs x0 x1 y0 y1) \<Longrightarrow> \<exists>c \<in> set cs. pixelType c = t"
  by (auto simp: traversal_def)

lemma roundtrip:
  assumes fd: "faithfulDeflate ext"
    and len: "length inp = blockSize (fullRange ext cmp rng)"
    and cap: "length inp \<le> maxScanLineSize cmp * numScanLines cmp"
  shows "\<exists>z. compress ext cmp inp rng = Inr z \<and>
             uncompress ext cmp z rng = Inr (quantizeBlock (fullRange ext cmp rng) inp)"
proof (cases "length inp = 0")
  case True
  with len have "length (quantizeBlock (fullRange ext cmp rng) inp) = 0"
    by (simp add: length_quantizeBlock)
  with True show ?thesis by (simp add: compress_def uncompress_def)
next
  case False
  define tr where "tr = fullRange ext cmp rng"
  define tmp where "tmp = compressChannels tr inp []"
  from fd obtain z where z: "zcompress ext tmp = Some z" "z \<noteq> []"
    and unz: "\<And>cap. length tmp \<le> cap \<Longrightarrow> zuncompress ext cap z = Some tmp"
    unfolding faithfulDeflate_def by blast
  have "length tmp \<le> blockSize tr" unfolding tmp_def by (rule length_compressChannels_le)
  with len cap have "length tmp \<le> maxScanLineSize cmp * numScanLines cmp"
    by (simp add: tr_def)
  then have inflate: "zuncompress ext (maxScanLineSize cmp * numScanLines cmp) z = Some tmp"
    by (rule unz)
  have c: "compress ext cmp inp rng = Inr z"
    using False z(1) by (simp add: compress_def Let_def tmp_def tr_def fullRange_def)
  from len have "blockSize tr \<le> length inp" by (simp add: tr_def)
  from uncompressChannels_compressChannels[OF this, of "[]" "[]" "[]"]
  have u: "uncompressChannels tr tmp 0 [] = Inr (length tmp, quantizeBlock tr inp)"
    by (simp add: tmp_def)
  have "uncompress ext cmp z rng = Inr (quantizeBlock tr inp)"
    using z(2) inflate u
    by (simp add: uncompress_def Let_def tr_def fullRange_def)
  with c show ?thesis unfolding tr_def by blast
qed

subsection \<open>The concrete compressor\<close>

lemma faithfulDeflate_example: "faithfulDeflate exampleExternals"
  by (simp add: faithfulDeflate_def exampleExternals_def)

lemma fullRange_exampleLossless:
  "fullRange exampleExternals exampleLossless exampleRange = [(HALF, 3), (UINT, 2), (HALF, 3), (UINT, 2)]"
  by (simp add: fullRange_def traversal_def exampleExternals_def exampleLossless_def exampleRange_def upto.simps)

lemma fullRange_exampleLossy:
  "fullRange exampleExternals exampleLossy exampleRange = [(FLOAT, 2), (HALF, 2), (HALF, 2)]"
  by (simp add: fullRange_def traversal_def exampleExternals_def exampleLossy_def exampleRange_def upto.simps)

text \<open>
  C1. Lossless round trip for \<open>UINT\<close> and \<open>HALF\<close>: when the channel list holds only
  channels of these two types, then for every rectangle and every block of pixel data
  that \<^verbatim>\<open>compress\<close> is given for it, \<^verbatim>\<open>compress\<close> succeeds and \<^verbatim>\<open>uncompress\<close> of its result
  returns the bytes of the block. The block has the size that the traversal of the
  rectangle reads and fits the scratch buffer of the compressor; the deflate backend is a
  faithful pair; and no visit of a channel in this call computes a negative number of
  samples (\<open>samplesNonNegative\<close>), which is where the traversal describes the source.
\<close>

theorem pxr24_lossless_roundtrip:
  assumes "faithfulDeflate ext"
    and "samplesNonNegative ext cmp rng"
    and "\<forall>c \<in> set (channels cmp). pixelType c = UINT \<or> pixelType c = HALF"
    and "length inp = blockSize (fullRange ext cmp rng)"
    and "length inp \<le> maxScanLineSize cmp * numScanLines cmp"
  shows "\<exists>outBuffer. compress ext cmp inp rng = Inr outBuffer \<and>
                     uncompress ext cmp outBuffer rng = Inr inp"
proof -
  have "\<forall>(t, n) \<in> set (fullRange ext cmp rng). t \<noteq> FLOAT"
    using assms(3) unfolding fullRange_def by (auto dest!: traversal_types)
  then have "quantizeBlock (fullRange ext cmp rng) inp = take (blockSize (fullRange ext cmp rng)) inp"
    by (rule quantizeBlock_lossless)
  with assms(4) have "quantizeBlock (fullRange ext cmp rng) inp = inp" by simp
  with roundtrip[OF assms(1,4,5)] show ?thesis by simp
qed

theorem pxr24_lossless_roundtrip_witness:
  "\<exists>outBuffer. compress exampleExternals exampleLossless exampleBlock28 exampleRange = Inr outBuffer \<and>
                uncompress exampleExternals exampleLossless outBuffer exampleRange = Inr exampleBlock28"
proof -
  have 1: "faithfulDeflate exampleExternals" by (rule faithfulDeflate_example)
  have 2: "samplesNonNegative exampleExternals exampleLossless exampleRange"
    by (simp add: samplesNonNegative_def exampleExternals_def exampleLossless_def exampleRange_def)
  have 3: "\<forall>c \<in> set (channels exampleLossless). pixelType c = UINT \<or> pixelType c = HALF"
    by (simp add: exampleLossless_def)
  have 4: "length exampleBlock28 = blockSize (fullRange exampleExternals exampleLossless exampleRange)"
    by (simp add: fullRange_exampleLossless exampleBlock28_def bytesPerSample_def)
  have 5: "length exampleBlock28 \<le> maxScanLineSize exampleLossless * numScanLines exampleLossless"
    by (simp add: exampleLossless_def exampleBlock28_def)
  from pxr24_lossless_roundtrip[OF 1 2 3 4 5] show ?thesis .
qed

text \<open>
  C2. Near-lossless round trip for \<open>FLOAT\<close>: for every channel list \<^verbatim>\<open>uncompress\<close> of the
  result of \<^verbatim>\<open>compress\<close> returns the block in which every 32-bit sample \<open>f\<close> of a \<open>FLOAT\<close>
  channel is replaced by \<open>floatToFloat24 f\<close> shifted left by 8 bits and every other sample
  is unchanged (this is \<open>quantizeBlock\<close>); the low 8 bits of such a word are zero. It
  holds for every bit pattern \<open>f\<close>, finite or not. The block, the backend and the sample
  counts of the call are as in C1.
\<close>

theorem pxr24_float_roundtrip:
  assumes "faithfulDeflate ext"
    and "samplesNonNegative ext cmp rng"
    and "length inp = blockSize (fullRange ext cmp rng)"
    and "length inp \<le> maxScanLineSize cmp * numScanLines cmp"
  shows "(\<exists>outBuffer. compress ext cmp inp rng = Inr outBuffer \<and>
            uncompress ext cmp outBuffer rng = Inr (quantizeBlock (fullRange ext cmp rng) inp))
         \<and> (\<forall>f. float24ToFloat (floatToFloat24 f) AND 0xFF = 0)"
proof -
  have "float24ToFloat w AND 0xFF = 0" for w
  proof -
    have "(0xFF :: u32) = mask 8" by (simp add: mask_eq_exp_minus_1)
    then show ?thesis
      unfolding float24ToFloat_def by (simp only: flip: take_bit_eq_mask) (simp add: take_bit_push_bit)
  qed
  with roundtrip[OF assms(1,3,4)] show ?thesis by simp
qed

theorem pxr24_float_roundtrip_witness:
  "\<exists>outBuffer. compress exampleExternals exampleLossy exampleBlock16 exampleRange = Inr outBuffer \<and>
      uncompress exampleExternals exampleLossy outBuffer exampleRange
        = Inr [0x00, 0x00, 0x80, 0x3F, 0x00, 0xFF, 0x7F, 0x7F, 0x00, 0x3C, 0x00, 0x40,
               0x00, 0x42, 0x00, 0x44]"
proof -
  have 1: "faithfulDeflate exampleExternals" by (rule faithfulDeflate_example)
  have 2: "samplesNonNegative exampleExternals exampleLossy exampleRange"
    by (simp add: samplesNonNegative_def exampleExternals_def exampleLossy_def exampleRange_def)
  have 3: "length exampleBlock16 = blockSize (fullRange exampleExternals exampleLossy exampleRange)"
    by (simp add: fullRange_exampleLossy exampleBlock16_def bytesPerSample_def)
  have 4: "length exampleBlock16 \<le> maxScanLineSize exampleLossy * numScanLines exampleLossy"
    by (simp add: exampleLossy_def exampleBlock16_def)
  have q: "quantizeBlock (fullRange exampleExternals exampleLossy exampleRange) exampleBlock16
      = [0x00, 0x00, 0x80, 0x3F, 0x00, 0xFF, 0x7F, 0x7F, 0x00, 0x3C, 0x00, 0x40, 0x00, 0x42, 0x00, 0x44]"
    unfolding fullRange_exampleLossy by code_simp
  from pxr24_float_roundtrip[OF 1 2 3 4] show ?thesis unfolding q by blast
qed

section \<open>What \<^verbatim>\<open>decode\<close> leaves in the destination\<close>

lemma length_copyRun: "length (copyRun xs idx i k) = length xs"
  by (induction k arbitrary: xs i) simp_all


lemma refill_dst:
  assumes "refill src n s = Inr s'"
  shows "dst s' = dst s"
proof -
  have fetch: "dst (refillBack src a) = dst a" for a
    by (simp add: refillBack_def split: prod.splits)
  have cons: "dst (consumeBack k a) = dst a" for k a
    by (simp add: consumeBack_def)
  from assms obtain topBits where t: "shiftRight (bufferBack s) (64 - n) = Some topBits"
    by (cases "shiftRight (bufferBack s) (64 - n)") (simp_all add: refill_def)
  show ?thesis
  proof (cases "bufferBackNumBits s < n")
    case False
    with assms t have "s' = consumeBack n (s\<lparr> buffer := buffer s OR topBits \<rparr>)"
      by (simp add: refill_def)
    then show ?thesis by (simp add: cons)
  next
    case True
    define s2 where "s2 = refillBack src (s\<lparr> buffer := buffer s OR topBits \<rparr>)"
    from assms t True obtain topBits' where
      "s' = consumeBack (n - bufferBackNumBits s) (s2\<lparr> buffer := buffer s2 OR topBits' \<rparr>)"
      by (cases "shiftRight (bufferBack s2) (64 - (n - bufferBackNumBits s))")
         (auto simp: refill_def Let_def s2_def)
    then show ?thesis by (simp add: cons s2_def fetch)
  qed
qed

lemma refillTo64_dst:
  assumes "refillTo64 src s = Inr s'"
  shows "dst s' = dst s"
proof (cases "refill src (64 - bufferNumBits s) s")
  case (Inl err)
  with assms show ?thesis by (simp add: refillTo64_def)
next
  case (Inr b)
  with assms refill_dst[OF Inr] show ?thesis by (auto simp: refillTo64_def)
qed









section \<open>The tables of the constructor\<close>

subsection \<open>An induction principle for the scan\<close>

lemma readCode_fields [simp]:
  "symbols (snd (readCode n table st)) = symbols st"
  "scanMinCodeLength (snd (readCode n table st)) = scanMinCodeLength st"
  "scanMaxCodeLength (snd (readCode n table st)) = scanMaxCodeLength st"
  "codeCount (snd (readCode n table st)) = codeCount st"
  by (simp_all add: readCode_def split: prod.splits)

lemma scanSymbols_invariant:
  assumes "scanSymbols table numBytes maxSymbol symbol st = Inr st'"
    and "P st"
    and rd: "\<And>n tbl st. P st \<Longrightarrow> P (snd (readCode n tbl st))"
    and rc: "\<And>symbol codeLen st. P st \<Longrightarrow> codeLen \<noteq> 0 \<Longrightarrow> codeLen < 59 \<Longrightarrow>
               P (recordSymbol symbol codeLen st)"
  shows "P st'"
  using assms(1,2)
proof (induction table numBytes maxSymbol symbol st rule: scanSymbols.induct)
  case (1 table numBytes maxSymbol symbol st)
  note step = "1.prems"(1)[unfolded scanSymbols.simps[of table numBytes maxSymbol symbol st]]
  show ?case
  proof (cases "symbol \<le> word_of_int maxSymbol")
    case False
    with step "1.prems"(2) show ?thesis by simp
  next
    case True
    with step have nb: "\<not> numBytes \<le> int (currByte st)" by (auto split: if_splits)
    define codeLen where "codeLen = fst (readCode 6 table st)"
    define st1 where "st1 = snd (readCode 6 table st)"
    have P1: "P st1" unfolding st1_def by (rule rd[OF "1.prems"(2)])
    consider (long) "codeLen = 63" | (short) "codeLen \<noteq> 63" "59 \<le> codeLen"
      | (lit) "codeLen \<noteq> 63" "\<not> 59 \<le> codeLen" "codeLen \<noteq> 0"
      | (zero) "codeLen \<noteq> 63" "\<not> 59 \<le> codeLen" "codeLen = 0"
      by blast
    then show ?thesis
    proof cases
      case long
      with step True nb have nb1: "\<not> numBytes \<le> int (currByte st1)"
        by (auto simp: Let_def codeLen_def st1_def split: if_splits)
      define runLen where "runLen = unat (fst (readCode 8 table st1)) + 6"
      define st2 where "st2 = snd (readCode 8 table st1)"
      have P2: "P st2" unfolding st2_def by (rule rd[OF P1])
      from step True nb long nb1
      have ov: "\<not> word_of_int (maxSymbol + 1) < symbol + word_of_nat runLen"
        and rec: "scanSymbols table numBytes maxSymbol (symbol + word_of_nat (runLen - 1) + 1) st2 = Inr st'"
        by (auto simp: Let_def codeLen_def st1_def runLen_def st2_def split: if_splits)
      show ?thesis
        by (rule "1.IH"(1)[OF True _ codeLen_def st1_def _ _ runLen_def st2_def _ rec P2])
           (use nb long nb1 ov in \<open>simp_all add: not_le not_less\<close>)
    next
      case short
      define runLen where "runLen = unat codeLen - 59 + 2"
      from step True nb short
      have ov: "\<not> word_of_int (maxSymbol + 1) < symbol + word_of_nat runLen"
        and rec: "scanSymbols table numBytes maxSymbol (symbol + word_of_nat (runLen - 1) + 1) st1 = Inr st'"
        by (auto simp: Let_def codeLen_def st1_def runLen_def split: if_splits)
      show ?thesis
        by (rule "1.IH"(2)[OF True _ codeLen_def st1_def _ _ runLen_def _ rec P1])
           (use nb short ov in \<open>simp_all add: not_le not_less\<close>)
    next
      case lit
      from step True nb lit
      have rec: "scanSymbols table numBytes maxSymbol (symbol + 1) (recordSymbol symbol codeLen st1) = Inr st'"
        by (auto simp: Let_def codeLen_def st1_def split: if_splits)
      from lit have "codeLen < 59" by simp
      then have Pr: "P (recordSymbol symbol codeLen st1)" using lit(3) P1 by (intro rc)
      show ?thesis
        by (rule "1.IH"(3)[OF True _ codeLen_def st1_def _ _ _ rec Pr])
           (use nb lit in \<open>simp_all add: not_le not_less\<close>)
    next
      case zero
      from step True nb zero
      have rec: "scanSymbols table numBytes maxSymbol (symbol + 1) st1 = Inr st'"
        by (auto simp: Let_def codeLen_def st1_def split: if_splits)
      show ?thesis
        by (rule "1.IH"(4)[OF True _ codeLen_def st1_def _ _ _ rec P1])
           (use nb zero in \<open>simp_all add: not_le not_less\<close>)
    qed
  qed
qed

subsection \<open>The offset and base tables, entry by entry\<close>

lemma computeOffset_length: "length (computeOffset cc minLen maxLen) = MAX_CODE_LEN + 1"
proof -
  have "length (fold (\<lambda>i offset. offset[i := offset ! (i + 1) + word_of_nat (cc ! (i + 1))]) is init) = length init"
    for "is" and init :: "u64 list"
    by (induction "is" arbitrary: init) simp_all
  then show ?thesis by (simp add: computeOffset_def del: replicate_Suc)
qed

lemma computeOffset_step:
  assumes "minLen < maxLen"
  shows "computeOffset cc minLen maxLen =
         (computeOffset cc (Suc minLen) maxLen)
           [minLen := computeOffset cc (Suc minLen) maxLen ! Suc minLen + word_of_nat (cc ! Suc minLen)]"
proof -
  from assms have "[minLen ..< maxLen] = minLen # [Suc minLen ..< maxLen]"
    by (simp add: upt_conv_Cons)
  then show ?thesis by (simp add: computeOffset_def)
qed

lemma computeOffset_nth:
  assumes "maxLen \<le> MAX_CODE_LEN" and "l \<le> maxLen"
  shows "computeOffset cc minLen maxLen ! l =
         (if minLen \<le> l then word_of_nat (\<Sum>k = Suc l ..< Suc maxLen. cc ! k) else 0)"
  using assms(2)
proof (induction "maxLen - minLen" arbitrary: minLen l)
  case 0
  then have "maxLen \<le> minLen" by simp
  then have "computeOffset cc minLen maxLen = (replicate (MAX_CODE_LEN + 1) 0)[maxLen := 0]"
    by (simp add: computeOffset_def del: replicate_Suc)
  moreover from 0 have "minLen \<le> l \<Longrightarrow> l = maxLen" by simp
  ultimately show ?case using assms(1) 0 by (auto simp: nth_list_update simp del: replicate_Suc)
next
  case (Suc n)
  then have lt: "minLen < maxLen" and n: "n = maxLen - Suc minLen" by simp_all
  have len: "length (computeOffset cc (Suc minLen) maxLen) = MAX_CODE_LEN + 1"
    by (rule computeOffset_length)
  have ml: "minLen < MAX_CODE_LEN + 1" using lt assms(1) by simp
  show ?case
  proof (cases "l = minLen")
    case True
    have "computeOffset cc minLen maxLen ! l
        = computeOffset cc (Suc minLen) maxLen ! Suc minLen + word_of_nat (cc ! Suc minLen)"
      unfolding computeOffset_step[OF lt] True using len ml by simp
    also have "computeOffset cc (Suc minLen) maxLen ! Suc minLen
        = word_of_nat (\<Sum>k = Suc (Suc minLen) ..< Suc maxLen. cc ! k)"
      using Suc.hyps(1)[OF n, of "Suc minLen"] lt by simp
    also have "word_of_nat (\<Sum>k = Suc (Suc minLen) ..< Suc maxLen. cc ! k) + (word_of_nat (cc ! Suc minLen) :: u64)
        = word_of_nat (\<Sum>k = Suc minLen ..< Suc maxLen. cc ! k)"
    proof -
      have "(\<Sum>k = Suc minLen ..< Suc maxLen. cc ! k)
          = cc ! Suc minLen + (\<Sum>k = Suc (Suc minLen) ..< Suc maxLen. cc ! k)"
        using lt by (intro sum.atLeast_Suc_lessThan) simp
      then show ?thesis by (simp only: of_nat_add add.commute)
    qed
    finally show ?thesis using True by simp
  next
    case False
    then have "computeOffset cc minLen maxLen ! l = computeOffset cc (Suc minLen) maxLen ! l"
      unfolding computeOffset_step[OF lt] by simp
    with Suc.hyps(1)[OF n, of l] Suc.prems False show ?thesis by auto
  qed
qed

lemma fold_update_nth:
  "l < length init \<Longrightarrow> distinct ls \<Longrightarrow>
   fold (\<lambda>k xs. xs[k := f k]) ls init ! l = (if l \<in> set ls then f l else init ! l)"
proof (induction ls arbitrary: init)
  case Nil
  then show ?case by simp
next
  case (Cons a ls)
  then show ?case by (auto simp: nth_list_update)
qed

lemma fold_update_length: "length (fold (\<lambda>k xs. xs[k := f k]) ls init) = length init"
  by (induction ls arbitrary: init) simp_all

lemma computeBase_length: "length (computeBase cc minLen maxLen) = MAX_CODE_LEN + 1"
  by (simp add: computeBase_def fold_update_length del: replicate_Suc)

lemma computeBase_nth:
  assumes "l \<le> MAX_CODE_LEN"
  shows "computeBase cc minLen maxLen ! l =
         (if minLen \<le> l \<and> l \<le> maxLen then word_of_nat (baseValue cc maxLen l) else allOnes)"
  using assms by (auto simp: computeBase_def fold_update_nth simp del: replicate_Suc)

subsection \<open>What the scan establishes\<close>

lemma codeLenOf_packed:
  assumes "codeLen < 59"
  shows "codeLenOf (push_bit 6 symbol OR (codeLen AND 63)) = unat codeLen"
proof -
  have m: "(63 :: u64) = mask 6" by (simp add: mask_eq_exp_minus_1)
  from assms have "codeLen < 2 ^ 6" by (simp add: word_less_nat_alt)
  then have c: "codeLen AND mask 6 = codeLen" by (rule less_mask_eq)
  have "(push_bit 6 symbol OR (codeLen AND mask 6)) AND mask 6 = codeLen AND mask 6"
    by (rule bit_word_eqI) (auto simp: bit_simps)
  then show ?thesis unfolding codeLenOf_def m c by simp
qed

lemma scanInv_initial: "scanInv initialScan"
  by (simp add: scanInv_def initialScan_def del: replicate_Suc)

lemma scanInv_readCode: "scanInv st \<Longrightarrow> scanInv (snd (readCode n tbl st))"
  by (simp add: scanInv_def)

lemma scanInv_recordSymbol:
  assumes "scanInv st" and "codeLen \<noteq> 0" and "codeLen < 59"
  shows "scanInv (recordSymbol symbol codeLen st)"
proof -
  define c where "c = unat codeLen"
  define p where "p = push_bit 6 symbol OR (codeLen AND 63)"
  have cp: "codeLenOf p = c" unfolding p_def c_def by (rule codeLenOf_packed[OF assms(3)])
  from assms(2,3) have c1: "1 \<le> c" and c58: "c \<le> MAX_CODE_LEN"
    by (simp_all add: c_def MAX_CODE_LEN_def word_less_nat_alt unat_gt_0 Suc_leI)
  have sy: "symbols (recordSymbol symbol codeLen st) = symbols st @ [p]"
    and mn: "scanMinCodeLength (recordSymbol symbol codeLen st) = min c (scanMinCodeLength st)"
    and mx: "scanMaxCodeLength (recordSymbol symbol codeLen st) = max c (scanMaxCodeLength st)"
    and cc: "codeCount (recordSymbol symbol codeLen st) = (codeCount st)[c := codeCount st ! c + 1]"
    by (simp_all add: recordSymbol_def p_def c_def min_def max_def)
  from assms(1) have len: "length (codeCount st) = MAX_CODE_LEN + 1"
    and all: "\<forall>q \<in> set (symbols st). 1 \<le> codeLenOf q \<and> codeLenOf q \<le> MAX_CODE_LEN
            \<and> scanMinCodeLength st \<le> codeLenOf q \<and> codeLenOf q \<le> scanMaxCodeLength st"
    and cnt: "\<forall>l \<le> MAX_CODE_LEN. codeCount st ! l = count_list (map codeLenOf (symbols st)) l"
    and emp: "symbols st = [] \<longrightarrow> scanMinCodeLength st = 255 \<and> scanMaxCodeLength st = 0"
    and ne: "symbols st \<noteq> [] \<longrightarrow>
            (\<exists>q \<in> set (symbols st). codeLenOf q = scanMinCodeLength st) \<and>
            (\<exists>q \<in> set (symbols st). codeLenOf q = scanMaxCodeLength st)"
    by (simp_all add: scanInv_def)
  have 1: "length (codeCount (recordSymbol symbol codeLen st)) = MAX_CODE_LEN + 1"
    by (simp add: cc len)
  have 2: "\<forall>q \<in> set (symbols (recordSymbol symbol codeLen st)).
            1 \<le> codeLenOf q \<and> codeLenOf q \<le> MAX_CODE_LEN
            \<and> scanMinCodeLength (recordSymbol symbol codeLen st) \<le> codeLenOf q
            \<and> codeLenOf q \<le> scanMaxCodeLength (recordSymbol symbol codeLen st)"
    unfolding sy mn mx using all cp c1 c58 by auto
  have 3: "\<forall>l \<le> MAX_CODE_LEN. codeCount (recordSymbol symbol codeLen st) ! l
            = count_list (map codeLenOf (symbols (recordSymbol symbol codeLen st))) l"
    unfolding sy cc using cnt cp c58 len by (auto simp: nth_list_update)
  have 4: "symbols (recordSymbol symbol codeLen st) \<noteq> []" by (simp add: sy)
  have 5: "\<exists>q \<in> set (symbols (recordSymbol symbol codeLen st)).
            codeLenOf q = scanMinCodeLength (recordSymbol symbol codeLen st)"
  proof (cases "c \<le> scanMinCodeLength st")
    case True
    then show ?thesis unfolding sy mn using cp by (auto simp: min_def)
  next
    case False
    with emp c58 have "symbols st \<noteq> []" by (auto simp: MAX_CODE_LEN_def)
    with ne False show ?thesis unfolding sy mn by (auto simp: min_def)
  qed
  have 6: "\<exists>q \<in> set (symbols (recordSymbol symbol codeLen st)).
            codeLenOf q = scanMaxCodeLength (recordSymbol symbol codeLen st)"
  proof (cases "scanMaxCodeLength st \<le> c")
    case True
    then show ?thesis unfolding sy mx using cp by (auto simp: max_def)
  next
    case False
    with emp c1 have "symbols st \<noteq> []" by auto
    with ne False show ?thesis unfolding sy mx by (auto simp: max_def)
  qed
  show ?thesis unfolding scanInv_def using 1 2 3 4 5 6 by blast
qed

lemma scanTable_scanInv:
  assumes "scanTable table numBytes minSymbol maxSymbol = Inr st"
  shows "scanInv st"
  using assms unfolding scanTable_def
  by (rule scanSymbols_invariant[where P = scanInv])
     (auto intro: scanInv_initial scanInv_readCode scanInv_recordSymbol)

subsection \<open>The ids that the constructor hands out\<close>

lemma fill_bound:
  assumes "fillIdToSymbol n syms mapping ids = Inr ids'"
    and "n < 2 ^ 64"
    and "\<forall>p \<in> set syms. codeLenOf p < length mapping"
    and "l < length mapping"
    and "0 < count_list (map codeLenOf syms) l"
  shows "unat (mapping ! l) + count_list (map codeLenOf syms) l \<le> n"
  using assms(1,3,4,5)
proof (induction syms arbitrary: mapping ids)
  case Nil
  then show ?case by simp
next
  case (Cons p rest)
  define c where "c = codeLenOf p"
  have c: "unat (p AND 63) = c" by (simp add: c_def codeLenOf_def)
  from Cons.prems(2) have cl: "c < length mapping" by (simp add: c_def)
  have nn: "unat (word_of_nat n :: u64) = n"
    using assms(2) by (simp add: unat_of_nat)
  from Cons.prems(1) have lt: "mapping ! c < word_of_nat n"
    and rec: "fillIdToSymbol n rest (mapping[c := mapping ! c + 1]) (ids[unat (mapping ! c) := sint (ucast (drop_bit 6 p) :: 32 word)]) = Inr ids'"
    by (auto simp: Let_def c not_le split: if_splits)
  from lt have ltn: "unat (mapping ! c) < n" by (simp add: word_less_nat_alt nn)
  then have inc: "unat (mapping ! c + 1) = unat (mapping ! c) + 1"
    using assms(2) by (simp add: unat_word_ariths)
  have len': "length (mapping[c := mapping ! c + 1]) = length mapping" by simp
  show ?case
  proof (cases "0 < count_list (map codeLenOf rest) l")
    case True
    from Cons.IH[OF rec _ _ True] Cons.prems(2,3)
    have ih: "unat (mapping[c := mapping ! c + 1] ! l) + count_list (map codeLenOf rest) l \<le> n"
      by simp
    show ?thesis
    proof (cases "l = c")
      case True
      with ih cl inc show ?thesis by (simp add: c_def)
    next
      case False
      with ih show ?thesis by (simp add: c_def)
    qed
  next
    case False
    with Cons.prems(4) have "l = c" and "count_list (map codeLenOf (p # rest)) l = 1"
      by (auto simp: c_def split: if_splits)
    with ltn show ?thesis by simp
  qed
qed

lemma sum_count_list:
  "(\<forall>x \<in> set xs. a \<le> x \<and> x < b) \<Longrightarrow> (\<Sum>l = a ..< b. count_list xs l) = length xs"
  for xs :: "nat list"
proof (induction xs)
  case Nil
  then show ?case by simp
next
  case (Cons x xs)
  have "count_list (x # xs) l = count_list xs l + (if x = l then 1 else 0)" for l
    by simp
  then have "(\<Sum>l = a ..< b. count_list (x # xs) l)
      = (\<Sum>l = a ..< b. count_list xs l) + (\<Sum>l = a ..< b. if x = l then 1 else 0)"
    by (simp only: sum.distrib)
  also have "(\<Sum>l = a ..< b. if x = l then 1 else 0) = (1::nat)"
  proof -
    have "(\<Sum>l \<in> {a ..< b}. if x = l then 1 else 0) = (if x \<in> {a ..< b} then 1 else (0::nat))"
      by (rule sum.delta') simp
    moreover have "x \<in> {a ..< b}" using Cons.prems by simp
    ultimately show ?thesis by (simp only: if_True)
  qed
  finally show ?case using Cons by simp
qed

lemma count_list_pos: "x \<in> set xs \<Longrightarrow> 0 < count_list xs x"
  by (induction xs) auto


lemma sum_list_take_nth:
  "n \<le> length xs \<Longrightarrow> sum_list (take n xs) = (\<Sum>l = 0 ..< n. xs ! l)"
  by (simp add: sum_list_sum_nth atLeast0LessThan)

subsection \<open>What \<^verbatim>\<open>buildTables\<close> returns\<close>

lemma leftJustifiedBase_nth:
  "i \<le> MAX_CODE_LEN \<Longrightarrow>
   leftJustifiedBase base ! i = (if base ! i \<noteq> allOnes then push_bit (64 - i) (base ! i) else allOnes)"
  by (simp add: leftJustifiedBase_def del: upt_Suc)

lemma leftJustifiedOffset_nth:
  "i \<le> MAX_CODE_LEN \<Longrightarrow>
   leftJustifiedOffset offset ljb ! i =
     (if i = 0 then offset ! 0 - ljb ! 0 else offset ! i - drop_bit (64 - i) (ljb ! i))"
  by (simp add: leftJustifiedOffset_def del: upt_Suc)

lemma initialMapping_nth:
  "i \<le> MAX_CODE_LEN \<Longrightarrow>
   initialMapping offset minLen maxLen ! i = (if minLen \<le> i \<and> i \<le> maxLen then offset ! i else - 1)"
  by (simp add: initialMapping_def del: upt_Suc)

lemma length_initialMapping: "length (initialMapping offset minLen maxLen) = MAX_CODE_LEN + 1"
  by (simp add: initialMapping_def)

lemma tableEntries_eq:
  assumes "\<forall>i \<in> set is.
             tableEntry d (push_bit (64 - TABLE_LOOKUP_BITS) (word_of_nat i)) (minCodeLength d) = Inr (f i)"
  shows "tableEntries d is = Inr (map f is)"
  using assms by (induction "is") simp_all

lemma tableEntries_Inr:
  assumes "tableEntries d is = Inr entries"
  shows "length entries = length is \<and>
         (\<forall>k < length is.
            tableEntry d (push_bit (64 - TABLE_LOOKUP_BITS) (word_of_nat (is ! k))) (minCodeLength d)
              = Inr (entries ! k))"
  using assms
proof (induction "is" arbitrary: entries)
  case Nil
  then show ?case by simp
next
  case (Cons i "is")
  from Cons.prems obtain e es where
    e: "tableEntry d (push_bit (64 - TABLE_LOOKUP_BITS) (word_of_nat i)) (minCodeLength d) = Inr e"
    and es: "tableEntries d is = Inr es" and ent: "entries = e # es"
    by (auto split: sum.splits)
  from Cons.IH[OF es] e show ?case
    unfolding ent by (auto simp: nth_Cons split: nat.splits)
qed

lemma tableEntry_cong:
  assumes "maxCodeLength d' = maxCodeLength d" and "ljBase d' = ljBase d"
    and "ljOffset d' = ljOffset d" and "numSymbols d' = numSymbols d"
    and "idToSymbol d' = idToSymbol d"
  shows "tableEntry d' v codeLen = tableEntry d v codeLen"
proof (induction "maxCodeLength d + 1 - codeLen" arbitrary: codeLen)
  case 0
  then have "\<not> codeLen \<le> maxCodeLength d" by simp
  then show ?case
    by (subst tableEntry.simps, subst (2) tableEntry.simps) (simp add: assms)
next
  case (Suc n)
  then have "n = maxCodeLength d + 1 - (codeLen + 1)" by simp
  from Suc.hyps(1)[OF this] show ?case
    by (subst tableEntry.simps, subst (2) tableEntry.simps) (simp add: assms Let_def)
qed

lemma buildTables_Inr:
  assumes "buildTables d0 base offset = Inr d"
  shows "rleSymbol d = rleSymbol d0" and "numSymbols d = numSymbols d0"
    and "minCodeLength d = minCodeLength d0" and "maxCodeLength d = maxCodeLength d0"
    and "idToSymbol d = idToSymbol d0"
    and "ljBase d = leftJustifiedBase base"
    and "ljOffset d = leftJustifiedOffset offset (leftJustifiedBase base)"
    and "length (tableSymbol d) = 2 ^ TABLE_LOOKUP_BITS"
    and "length (tableCodeLen d) = 2 ^ TABLE_LOOKUP_BITS"
    and "\<forall>i < 2 ^ TABLE_LOOKUP_BITS.
           tableEntry d (push_bit (64 - TABLE_LOOKUP_BITS) (word_of_nat i)) (minCodeLength d)
             = Inr (tableSymbol d ! i, tableCodeLen d ! i)"
    and "tableMin d = (let minIdx = findMinIdx (leftJustifiedBase base) (int TABLE_LOOKUP_BITS)
                       in if minIdx < 0 then allOnes else leftJustifiedBase base ! nat minIdx)"
proof -
  define ljb where "ljb = leftJustifiedBase base"
  define d1 where "d1 = d0\<lparr> ljBase := ljb, ljOffset := leftJustifiedOffset offset ljb \<rparr>"
  from assms obtain entries where
    en: "tableEntries d1 [0 ..< 2 ^ TABLE_LOOKUP_BITS] = Inr entries"
    and d: "d = d1\<lparr> tableSymbol := map fst entries, tableCodeLen := map snd entries,
                     tableMin := (let minIdx = findMinIdx ljb (int TABLE_LOOKUP_BITS)
                                  in if minIdx < 0 then allOnes else ljb ! nat minIdx) \<rparr>"
    by (auto simp: buildTables_def Let_def ljb_def d1_def split: sum.splits)
  from tableEntries_Inr[OF en] have len: "length entries = 2 ^ TABLE_LOOKUP_BITS"
    and ent: "\<forall>k < 2 ^ TABLE_LOOKUP_BITS.
            tableEntry d1 (push_bit (64 - TABLE_LOOKUP_BITS) (word_of_nat k)) (minCodeLength d1)
              = Inr (entries ! k)"
    by simp_all
  show "rleSymbol d = rleSymbol d0" "numSymbols d = numSymbols d0"
    "minCodeLength d = minCodeLength d0" "maxCodeLength d = maxCodeLength d0"
    "idToSymbol d = idToSymbol d0" "ljBase d = leftJustifiedBase base"
    "ljOffset d = leftJustifiedOffset offset (leftJustifiedBase base)"
    by (simp_all add: d d1_def ljb_def)
  show "length (tableSymbol d) = 2 ^ TABLE_LOOKUP_BITS" "length (tableCodeLen d) = 2 ^ TABLE_LOOKUP_BITS"
    by (simp_all add: d len)
  show "tableMin d = (let minIdx = findMinIdx (leftJustifiedBase base) (int TABLE_LOOKUP_BITS)
                       in if minIdx < 0 then allOnes else leftJustifiedBase base ! nat minIdx)"
    by (simp add: d ljb_def Let_def)
  have same: "tableEntry d v c = tableEntry d1 v c" for v c
    by (rule tableEntry_cong) (simp_all add: d)
  show "\<forall>i < 2 ^ TABLE_LOOKUP_BITS.
           tableEntry d (push_bit (64 - TABLE_LOOKUP_BITS) (word_of_nat i)) (minCodeLength d)
             = Inr (tableSymbol d ! i, tableCodeLen d ! i)"
    using ent len by (simp add: same) (simp add: d)
qed

section \<open>The constructor on the concrete code book\<close>

subsection \<open>Single steps of the scan\<close>

lemma scanSymbols_literal:
  assumes "symbol \<le> word_of_int maxSymbol" and "int (currByte st) < numBytes"
    and "readCode 6 table st = (codeLen, st1)"
    and "codeLen < 59" and "codeLen \<noteq> 0"
  shows "scanSymbols table numBytes maxSymbol symbol st
         = scanSymbols table numBytes maxSymbol (symbol + 1) (recordSymbol symbol codeLen st1)"
  using assms by (subst scanSymbols.simps) (auto simp: Let_def)

lemma scanSymbols_zero:
  assumes "symbol \<le> word_of_int maxSymbol" and "int (currByte st) < numBytes"
    and "readCode 6 table st = (0, st1)"
  shows "scanSymbols table numBytes maxSymbol symbol st
         = scanSymbols table numBytes maxSymbol (symbol + 1) st1"
  using assms by (subst scanSymbols.simps) (simp add: Let_def)

lemma scanSymbols_done:
  assumes "\<not> symbol \<le> word_of_int maxSymbol"
  shows "scanSymbols table numBytes maxSymbol symbol st = Inr st"
  using assms by (subst scanSymbols.simps) simp

lemma rc1: "readCode 6 exampleTable initialScan
   = (1, initialScan\<lparr> currBits := 4, currBitCount := 2, currByte := 1 \<rparr>)"
  by (simp add: readCode_def readBits_def readBitsLoop.simps exampleTable_def initialScan_def mask_eq_exp_minus_1 drop_bit_eq_div)

lemma rc2: "readCode 6 exampleTable (recordSymbol 5 1 (initialScan\<lparr> currBits := 4, currBitCount := 2, currByte := 1 \<rparr>))
   = (0, (recordSymbol 5 1 initialScan)\<lparr> currBits := 0x0400, currBitCount := 4, currByte := 2 \<rparr>)"
  by (simp add: readCode_def readBits_def readBitsLoop.simps exampleTable_def initialScan_def recordSymbol_def mask_eq_exp_minus_1 drop_bit_eq_div)

lemma rc3: "readCode 6 exampleTable ((recordSymbol 5 1 initialScan)\<lparr> currBits := 0x0400, currBitCount := 4, currByte := 2 \<rparr>)
   = (1, (recordSymbol 5 1 initialScan)\<lparr> currBits := 0x040040, currBitCount := 6, currByte := 3 \<rparr>)"
  by (simp add: readCode_def readBits_def readBitsLoop.simps exampleTable_def initialScan_def recordSymbol_def mask_eq_exp_minus_1 drop_bit_eq_div)

lemma fin: "recordSymbol 7 1 ((recordSymbol 5 1 initialScan)\<lparr> currBits := 0x040040, currBitCount := 6, currByte := 3 \<rparr>) = exampleScan"
  by (simp add: initialScan_def recordSymbol_def exampleScan_def exampleCounts_def MAX_CODE_LEN_def numeral_2_eq_2)

lemma scan_example: "scanTable exampleTable 3 5 7 = Inr exampleScan"
proof -
  have "scanTable exampleTable 3 5 7 = scanSymbols exampleTable 3 7 5 initialScan"
    by (simp add: scanTable_def)
  also have "\<dots> = scanSymbols exampleTable 3 7 6 (recordSymbol 5 1 (initialScan\<lparr> currBits := 4, currBitCount := 2, currByte := 1 \<rparr>))"
    by (subst scanSymbols_literal[OF _ _ rc1]) (simp_all add: initialScan_def)
  also have "\<dots> = scanSymbols exampleTable 3 7 7 ((recordSymbol 5 1 initialScan)\<lparr> currBits := 0x0400, currBitCount := 4, currByte := 2 \<rparr>)"
    by (subst scanSymbols_zero[OF _ _ rc2]) (simp_all add: initialScan_def recordSymbol_def)
  also have "\<dots> = scanSymbols exampleTable 3 7 8 (recordSymbol 7 1 ((recordSymbol 5 1 initialScan)\<lparr> currBits := 0x040040, currBitCount := 6, currByte := 3 \<rparr>))"
    by (subst scanSymbols_literal[OF _ _ rc3]) (simp_all add: initialScan_def recordSymbol_def)
  also have "\<dots> = scanSymbols exampleTable 3 7 8 exampleScan"
    using fin by simp
  also have "\<dots> = Inr exampleScan"
    by (rule scanSymbols_done) simp
  finally show ?thesis .
qed

subsection \<open>The tables of the concrete decoder\<close>

lemma findMinIdx_eq:
  assumes "0 \<le> k" and "k \<le> m"
    and "\<forall>j. k < j \<and> j \<le> m \<longrightarrow> ljb ! nat j = allOnes"
    and "0 < k \<longrightarrow> ljb ! nat k \<noteq> allOnes"
  shows "findMinIdx ljb m = k"
  using assms
proof (induction "nat (m - k)" arbitrary: m)
  case 0
  then have "m = k" by simp
  with 0 show ?case by (subst findMinIdx.simps) auto
next
  case (Suc n)
  then have "k < m" by linarith
  with Suc.prems have "ljb ! nat m = allOnes" "0 < m" by auto
  then have "findMinIdx ljb m = findMinIdx ljb (m - 1)" by (subst findMinIdx.simps) simp
  moreover have "findMinIdx ljb (m - 1) = k"
    using Suc.hyps(2) Suc.prems \<open>k < m\<close> by (intro Suc.hyps(1)) auto
  ultimately show ?case by simp
qed

lemma exampleCounts_nth: "l \<le> MAX_CODE_LEN \<Longrightarrow> exampleCounts ! l = (if l = Suc 0 then 2 else 0)"
  by (simp add: exampleCounts_def MAX_CODE_LEN_def del: replicate_Suc)

lemma baseValue_example: "baseValue exampleCounts (Suc 0) (Suc 0) = 0"
  by (simp add: baseValue_def sumTmp_def)

lemma exampleBase_nth:
  "l \<le> MAX_CODE_LEN \<Longrightarrow>
   computeBase exampleCounts (Suc 0) (Suc 0) ! l = (if l = Suc 0 then 0 else allOnes)"
  by (auto simp: computeBase_nth baseValue_example)

lemma exampleLjBase_nth:
  "l \<le> MAX_CODE_LEN \<Longrightarrow> ljBase exampleDecoder ! l = (if l = Suc 0 then 0 else allOnes)"
  by (simp add: exampleDecoder_def leftJustifiedBase_nth exampleBase_nth allOnes_def)

lemma exampleOffset_nth:
  "l \<le> MAX_CODE_LEN \<Longrightarrow> computeOffset exampleCounts (Suc 0) (Suc 0) ! l = 0"
  by (simp add: computeOffset_def MAX_CODE_LEN_def nth_list_update del: replicate_Suc)

lemma exampleLjOffset_nth:
  "ljOffset exampleDecoder ! Suc 0 = 0"
  using exampleLjBase_nth[of "Suc 0"]
  by (simp add: exampleDecoder_def leftJustifiedOffset_nth exampleOffset_nth MAX_CODE_LEN_def)

lemma exampleTableMin: "findMinIdx (ljBase exampleDecoder) (int TABLE_LOOKUP_BITS) = 1"
  by (rule findMinIdx_eq) (auto simp: exampleLjBase_nth TABLE_LOOKUP_BITS_def MAX_CODE_LEN_def allOnes_def)

lemma unpack_examples:
  "unat ((0x141 :: u64) AND 63) = Suc 0" "unat ((0x1C1 :: u64) AND 63) = Suc 0"
  "sint (ucast (drop_bit 6 (0x141 :: u64)) :: 32 word) = 5"
  "sint (ucast (drop_bit 6 (0x1C1 :: u64)) :: 32 word) = 7"
  by (simp_all add: drop_bit_eq_div)

lemma exampleFill:
  "fillIdToSymbol 2 [0x141, 0x1C1]
     (initialMapping (computeOffset exampleCounts (Suc 0) (Suc 0)) (Suc 0) (Suc 0)) [0, 0] = Inr [5, 7]"
  by (simp add: Let_def unpack_examples initialMapping_nth exampleOffset_nth length_initialMapping
        MAX_CODE_LEN_def word_le_nat_alt)

lemma exampleEntry:
  assumes "i < 2 ^ TABLE_LOOKUP_BITS"
  shows "tableEntry exampleDecoder (push_bit (64 - TABLE_LOOKUP_BITS) (word_of_nat i)) (minCodeLength exampleDecoder)
         = Inr (if i < 2048 then 5 else 7, 1)"
proof -
  define v :: u64 where "v = push_bit (64 - TABLE_LOOKUP_BITS) (word_of_nat i)"
  have i: "i < 4096" using assms by (simp add: TABLE_LOOKUP_BITS_def)
  have "drop_bit 63 v = word_of_nat (i div 2048)"
  proof -
    have lt: "i * 2 ^ 52 < 2 ^ 12 * (2 ^ 52 :: nat)" using i by simp
    have v52: "v = push_bit 52 (word_of_nat i)" by (simp add: v_def TABLE_LOOKUP_BITS_def)
    have "unat v = take_bit 64 (push_bit 52 (unat (word_of_nat i :: u64)))"
      unfolding v52 by (subst unsigned_push_bit_eq) simp
    also have "unat (word_of_nat i :: u64) = i" using i by (simp add: unat_of_nat)
    also have "take_bit 64 (push_bit 52 i) = i * 2 ^ 52"
      using lt by (simp add: push_bit_eq_mult take_bit_nat_eq_self)
    finally have u: "unat v = i * 2 ^ 52" .
    have "unat (drop_bit 63 v) = drop_bit 63 (unat v)" by (rule unat_drop_bit_eq)
    also have "\<dots> = i * 2 ^ 52 div 2 ^ 63" unfolding u by (simp add: drop_bit_eq_div)
    also have "\<dots> = i div 2048" by simp
    finally have "unat (drop_bit 63 v) = i div 2048" .
    then have "word_of_nat (unat (drop_bit 63 v)) = (word_of_nat (i div 2048) :: u64)" by simp
    then show ?thesis by simp
  qed
  moreover have "i div 2048 = (if i < 2048 then 0 else 1)" using i by auto
  ultimately have top: "drop_bit 63 v = (if i < 2048 then 0 else 1)" by simp
  have m: "minCodeLength exampleDecoder = Suc 0" "maxCodeLength exampleDecoder = Suc 0"
    "numSymbols exampleDecoder = 2" "idToSymbol exampleDecoder = [5, 7]"
    by (simp_all add: exampleDecoder_def)
  show ?thesis
    unfolding v_def[symmetric] m
    by (subst tableEntry.simps)
       (simp add: m exampleLjBase_nth exampleLjOffset_nth MAX_CODE_LEN_def top word_less_nat_alt)
qed

lemma exampleEntries:
  "tableEntries exampleDecoder [0 ..< 2 ^ TABLE_LOOKUP_BITS]
   = Inr (map (\<lambda>i. (if i < 2048 then 5 else 7, 1)) [0 ..< 2 ^ TABLE_LOOKUP_BITS])"
  by (rule tableEntries_eq) (simp add: exampleEntry)

lemma tableEntries_cong:
  assumes "minCodeLength d' = minCodeLength d" and "maxCodeLength d' = maxCodeLength d"
    and "ljBase d' = ljBase d" and "ljOffset d' = ljOffset d"
    and "numSymbols d' = numSymbols d" and "idToSymbol d' = idToSymbol d"
  shows "tableEntries d' is = tableEntries d is"
  by (induction "is") (simp_all add: assms(1) tableEntry_cong[OF assms(2-6)] cong: sum.case_cong)

lemma exampleBuild:
  "buildTables
     \<lparr> rleSymbol = 7, numSymbols = 2, minCodeLength = 1, maxCodeLength = 1,
       idToSymbol = [5, 7], ljBase = [], ljOffset = [],
       tableSymbol = [], tableCodeLen = [], tableMin = 0 \<rparr>
     (computeBase exampleCounts 1 1) (computeOffset exampleCounts 1 1)
   = Inr exampleDecoder"
proof -
  define d0 :: FastHufDecoder where "d0 =
     \<lparr> rleSymbol = 7, numSymbols = 2, minCodeLength = 1, maxCodeLength = 1,
       idToSymbol = [5, 7], ljBase = [], ljOffset = [],
       tableSymbol = [], tableCodeLen = [], tableMin = 0 \<rparr>"
  define ljb where "ljb = leftJustifiedBase (computeBase exampleCounts 1 1)"
  define d1 where "d1 = d0\<lparr> ljBase := ljb,
     ljOffset := leftJustifiedOffset (computeOffset exampleCounts 1 1) ljb \<rparr>"
  have ljb: "ljb = ljBase exampleDecoder" by (simp add: ljb_def exampleDecoder_def)
  have "tableEntries d1 [0 ..< 2 ^ TABLE_LOOKUP_BITS]
      = tableEntries exampleDecoder [0 ..< 2 ^ TABLE_LOOKUP_BITS]"
    by (rule tableEntries_cong) (simp_all add: d1_def d0_def ljb_def exampleDecoder_def)
  then have entries: "tableEntries d1 [0 ..< 2 ^ TABLE_LOOKUP_BITS]
      = Inr (map (\<lambda>i. (if i < 2048 then 5 else 7 :: int, 1 :: nat)) [0 ..< 2 ^ TABLE_LOOKUP_BITS])"
    by (simp only: exampleEntries)
  have minIdx: "findMinIdx ljb (int TABLE_LOOKUP_BITS) = 1"
    unfolding ljb by (rule exampleTableMin)
  have tm: "ljb ! nat 1 = 0"
    unfolding ljb using exampleLjBase_nth[of "Suc 0"] by (simp add: MAX_CODE_LEN_def)
  have "buildTables d0 (computeBase exampleCounts 1 1) (computeOffset exampleCounts 1 1)
      = Inr (d1\<lparr> tableSymbol := map fst (map (\<lambda>i. (if i < 2048 then 5 else 7 :: int, 1 :: nat)) [0 ..< 2 ^ TABLE_LOOKUP_BITS]),
                 tableCodeLen := map snd (map (\<lambda>i. (if i < 2048 then 5 else 7 :: int, 1 :: nat)) [0 ..< 2 ^ TABLE_LOOKUP_BITS]),
                 tableMin := 0 \<rparr>)"
    unfolding buildTables_def ljb_def[symmetric] Let_def d1_def[symmetric] entries minIdx
    using tm by simp
  also have "\<dots> = Inr exampleDecoder"
    by (simp add: d1_def d0_def ljb_def exampleDecoder_def comp_def)
  finally show ?thesis unfolding d0_def .
qed

lemma exampleCounts_sum: "sum_list (take MAX_CODE_LEN exampleCounts) = 2"
proof -
  have "sum_list (take MAX_CODE_LEN exampleCounts) = (\<Sum>l = 0 ..< MAX_CODE_LEN. exampleCounts ! l)"
    by (rule sum_list_take_nth) (simp add: exampleCounts_def)
  also have "\<dots> = (\<Sum>l = 0 ..< MAX_CODE_LEN. if l = Suc 0 then 2 else 0)"
    by (intro sum.cong) (simp_all add: exampleCounts_nth)
  also have "\<dots> = 2" by (simp add: MAX_CODE_LEN_def)
  finally show ?thesis .
qed

lemma exampleConstruction:
  "newFastHufDecoder exampleTable 3 5 7 7 = Inr (exampleDecoder, 3)"
proof -
  have sel: "scanMinCodeLength exampleScan = 1" "scanMaxCodeLength exampleScan = 1"
    "codeCount exampleScan = exampleCounts" "symbols exampleScan = [0x141, 0x1C1]"
    "currByte exampleScan = 3"
    by (simp_all add: exampleScan_def)
  have fill: "fillIdToSymbol 2 [0x141, 0x1C1]
      (initialMapping (computeOffset exampleCounts 1 1) 1 1) (replicate 2 0) = Inr [5, 7]"
    using exampleFill by (simp add: numeral_2_eq_2)
  show ?thesis
    unfolding newFastHufDecoder_def scan_example Let_def sum.case sel exampleCounts_sum fill
      exampleBuild
    by simp
qed

section \<open>Runs, errors and the concrete payloads\<close>

subsection \<open>What a run writes\<close>

lemma copyRun_nth:
  assumes "1 \<le> idx" and "nat idx + i + k \<le> length xs" and "j < length xs"
  shows "copyRun xs idx i k ! j =
           (if nat idx + i \<le> j \<and> j < nat idx + i + k then xs ! nat (idx - 1) else xs ! j)"
  using assms
proof (induction k arbitrary: xs i)
  case 0
  then show ?case by auto
next
  case (Suc k)
  define ys where "ys = xs[nat (idx + int i) := xs ! nat (idx - 1)]"
  have pos: "nat (idx + int i) = nat idx + i" using Suc.prems(1) by simp
  have src: "ys ! nat (idx - 1) = xs ! nat (idx - 1)"
    using Suc.prems(1) by (simp add: ys_def pos nth_list_update)
  have "copyRun ys idx (Suc i) k ! j =
          (if nat idx + Suc i \<le> j \<and> j < nat idx + Suc i + k then ys ! nat (idx - 1) else ys ! j)"
    using Suc.prems by (intro Suc.IH) (simp_all add: ys_def)
  then show ?case
    using Suc.prems by (auto simp: src ys_def[symmetric]) (auto simp: ys_def pos nth_list_update)
qed

lemma copyRun_eq:
  assumes "1 \<le> idx" and "nat idx + k \<le> length xs"
  shows "copyRun xs idx 0 k =
           take (nat idx) xs @ replicate k (xs ! nat (idx - 1)) @ drop (nat idx + k) xs"
proof (rule nth_equalityI)
  show "length (copyRun xs idx 0 k)
      = length (take (nat idx) xs @ replicate k (xs ! nat (idx - 1)) @ drop (nat idx + k) xs)"
    using assms by (simp add: length_copyRun)
next
  fix j
  assume "j < length (copyRun xs idx 0 k)"
  then have j: "j < length xs" by (simp add: length_copyRun)
  from copyRun_nth[OF assms(1) _ j, of 0 k] assms(2)
  show "copyRun xs idx 0 k ! j
      = (take (nat idx) xs @ replicate k (xs ! nat (idx - 1)) @ drop (nat idx + k) xs) ! j"
    using j by (auto simp: nth_append)
qed

lemma top_byte_range: "uint (drop_bit 56 (w :: u64)) < 256"
proof -
  have "uint (drop_bit 56 w) = drop_bit 56 (take_bit 64 (uint w))"
    by (subst unsigned_drop_bit_eq) simp
  also have "take_bit 64 (uint w) = uint w"
    by (rule take_bit_int_eq_self) (use uint_lt2p[of w] in simp_all)
  also have "drop_bit 56 (uint w) = uint w div 2 ^ 56" by (simp add: drop_bit_eq_div)
  finally have "uint (drop_bit 56 w) = uint w div 2 ^ 56" .
  moreover have "uint w < 2 ^ 56 * 256" using uint_lt2p[of w] by simp
  then have "uint w div 2 ^ 56 < 256" by (simp add: div_less_iff_less_mult)
  ultimately show ?thesis by simp
qed

subsection \<open>The errors of the loop\<close>





lemma ensure_fields:
  assumes "(if bufferNumBits s < 8 then refillTo64 src s else Inr s) = Inr s1"
  shows "dst s1 = dst s" and "dstIdx s1 = dstIdx s"
  using assms by (auto split: if_splits dest: refillTo64_dst refillTo64_dstIdx)

subsection \<open>The loop on the concrete payloads\<close>

lemma exampleTables_nth:
  assumes "i < 4096"
  shows "tableCodeLen exampleDecoder ! i = 1"
    and "tableSymbol exampleDecoder ! i = (if i < 2048 then 5 else 7)"
  using assms by (simp_all add: exampleDecoder_def TABLE_LOOKUP_BITS_def)

lemma exampleDecoder_fields:
  "tableMin exampleDecoder = 0" "rleSymbol exampleDecoder = 7"
  by (simp_all add: exampleDecoder_def)

lemma READ64_examplePayload:
  "READ64 examplePayload 0 = 0x40C0000000000000" "READ64 examplePayload 8 = 0"
  by (simp_all add: READ64_def examplePayload_def)

lemma example_literal:
  "decodeStep exampleDecoder src n
     \<lparr> buffer = 0x40C0000000000000, bufferNumBits = 64, bufferBack = 0, bufferBackNumBits = 64,
       srcByte = 16, numSrcBits = 0, dst = xs, dstIdx = 0 \<rparr>
   = Inr \<lparr> buffer = 0x8180000000000000, bufferNumBits = 63, bufferBack = 0, bufferBackNumBits = 64,
           srcByte = 16, numSrcBits = 0, dst = xs[0 := 5], dstIdx = 1 \<rparr>"
  by (simp add: decodeStep_def nextSymbol_def tableLookup_def exampleTables_nth consumeCode_def
        emitSymbol_def storeSymbol_def topUp_def TABLE_LOOKUP_BITS_def exampleDecoder_fields)

lemma example_run:
  "decodeStep exampleDecoder src n
     \<lparr> buffer = 0x8180000000000000, bufferNumBits = 63, bufferBack = 0, bufferBackNumBits = 64,
       srcByte = 16, numSrcBits = 0, dst = xs, dstIdx = 1 \<rparr>
   = (if 4 > n then Inl (RleOverrun, xs)
      else Inr \<lparr> buffer = 0, bufferNumBits = 54, bufferBack = 0, bufferBackNumBits = 64,
                 srcByte = 16, numSrcBits = 0, dst = copyRun xs 1 0 3, dstIdx = 4 \<rparr>)"
  by (simp add: decodeStep_def nextSymbol_def tableLookup_def exampleTables_nth consumeCode_def
        emitSymbol_def rleRun_def topUp_def TABLE_LOOKUP_BITS_def exampleDecoder_fields Let_def)


lemma decode_example_run:
  "decode exampleDecoder examplePayload 128 xs 4 = (None, copyRun (xs[0 := 5]) 1 0 3)"
  by (simp add: decode_def READ64_examplePayload decodeLoop.simps example_literal example_run)

lemma READ64_exampleRunFirst:
  "READ64 exampleRunFirst 0 = 0x8180000000000000" "READ64 exampleRunFirst 8 = 0"
  by (simp_all add: READ64_def exampleRunFirst_def)

lemma example_run_first:
  "decodeStep exampleDecoder src n
     \<lparr> buffer = 0x8180000000000000, bufferNumBits = 64, bufferBack = 0, bufferBackNumBits = 64,
       srcByte = 16, numSrcBits = 0, dst = xs, dstIdx = 0 \<rparr>
   = Inl (RleBeforeFirst, xs)"
  by (simp add: decodeStep_def nextSymbol_def tableLookup_def exampleTables_nth consumeCode_def
        emitSymbol_def rleRun_def topUp_def TABLE_LOOKUP_BITS_def exampleDecoder_fields Let_def)

section \<open>The base table\<close>

subsection \<open>The scan of the code book with a gap\<close>

lemma gap_next:
  "(0 :: u64) + 1 = 1" "(1 :: u64) + 1 = 2" "(2 :: u64) + 1 = 3" "(3 :: u64) + 1 = 4"
  "(4 :: u64) + 1 = 5"
  by simp_all

lemma gap_read0:
  "readCode 6 exampleGapTable
     initialScan
   = (1,
     \<lparr> currBits = 0x4, currBitCount = 2, currByte = 1,
       symbols = [],
       scanMinCodeLength = 255, scanMaxCodeLength = 0,
       codeCount = (replicate (MAX_CODE_LEN + 1) 0) \<rparr>)"
  by (simp add: readCode_def readBits_def readBitsLoop.simps exampleGapTable_def initialScan_def
        mask_eq_exp_minus_1 drop_bit_eq_div)

lemma gap_record0:
  "recordSymbol 0 1
     \<lparr> currBits = 0x4, currBitCount = 2, currByte = 1,
       symbols = [],
       scanMinCodeLength = 255, scanMaxCodeLength = 0,
       codeCount = (replicate (MAX_CODE_LEN + 1) 0) \<rparr>
   = \<lparr> currBits = 0x4, currBitCount = 2, currByte = 1,
       symbols = [1],
       scanMinCodeLength = 1, scanMaxCodeLength = 1,
       codeCount = (replicate (MAX_CODE_LEN + 1) 0)[1 := 1] \<rparr>"
  by (simp add: recordSymbol_def MAX_CODE_LEN_def numeral_2_eq_2[symmetric])

lemma gap_step0:
  "scanSymbols exampleGapTable 4 4 0
     initialScan
   = scanSymbols exampleGapTable 4 4 1
     \<lparr> currBits = 0x4, currBitCount = 2, currByte = 1,
       symbols = [1],
       scanMinCodeLength = 1, scanMaxCodeLength = 1,
       codeCount = (replicate (MAX_CODE_LEN + 1) 0)[1 := 1] \<rparr>"
  by (subst scanSymbols_literal[OF _ _ gap_read0], simp, simp add: initialScan_def, simp, simp)
     (simp only: gap_record0, simp only: gap_next)

lemma gap_read1:
  "readCode 6 exampleGapTable
     \<lparr> currBits = 0x4, currBitCount = 2, currByte = 1,
       symbols = [1],
       scanMinCodeLength = 1, scanMaxCodeLength = 1,
       codeCount = (replicate (MAX_CODE_LEN + 1) 0)[1 := 1] \<rparr>
   = (3,
     \<lparr> currBits = 0x430, currBitCount = 4, currByte = 2,
       symbols = [1],
       scanMinCodeLength = 1, scanMaxCodeLength = 1,
       codeCount = (replicate (MAX_CODE_LEN + 1) 0)[1 := 1] \<rparr>)"
  by (simp add: readCode_def readBits_def readBitsLoop.simps exampleGapTable_def initialScan_def
        mask_eq_exp_minus_1 drop_bit_eq_div)

lemma gap_record1:
  "recordSymbol 1 3
     \<lparr> currBits = 0x430, currBitCount = 4, currByte = 2,
       symbols = [1],
       scanMinCodeLength = 1, scanMaxCodeLength = 1,
       codeCount = (replicate (MAX_CODE_LEN + 1) 0)[1 := 1] \<rparr>
   = \<lparr> currBits = 0x430, currBitCount = 4, currByte = 2,
       symbols = [1, 67],
       scanMinCodeLength = 1, scanMaxCodeLength = 3,
       codeCount = (replicate (MAX_CODE_LEN + 1) 0)[1 := 1, 3 := 1] \<rparr>"
  by (simp add: recordSymbol_def MAX_CODE_LEN_def numeral_2_eq_2[symmetric])

lemma gap_step1:
  "scanSymbols exampleGapTable 4 4 1
     \<lparr> currBits = 0x4, currBitCount = 2, currByte = 1,
       symbols = [1],
       scanMinCodeLength = 1, scanMaxCodeLength = 1,
       codeCount = (replicate (MAX_CODE_LEN + 1) 0)[1 := 1] \<rparr>
   = scanSymbols exampleGapTable 4 4 2
     \<lparr> currBits = 0x430, currBitCount = 4, currByte = 2,
       symbols = [1, 67],
       scanMinCodeLength = 1, scanMaxCodeLength = 3,
       codeCount = (replicate (MAX_CODE_LEN + 1) 0)[1 := 1, 3 := 1] \<rparr>"
  by (subst scanSymbols_literal[OF _ _ gap_read1], simp, simp, simp, simp)
     (simp only: gap_record1, simp only: gap_next)

lemma gap_read2:
  "readCode 6 exampleGapTable
     \<lparr> currBits = 0x430, currBitCount = 4, currByte = 2,
       symbols = [1, 67],
       scanMinCodeLength = 1, scanMaxCodeLength = 3,
       codeCount = (replicate (MAX_CODE_LEN + 1) 0)[1 := 1, 3 := 1] \<rparr>
   = (3,
     \<lparr> currBits = 0x430C3, currBitCount = 6, currByte = 3,
       symbols = [1, 67],
       scanMinCodeLength = 1, scanMaxCodeLength = 3,
       codeCount = (replicate (MAX_CODE_LEN + 1) 0)[1 := 1, 3 := 1] \<rparr>)"
  by (simp add: readCode_def readBits_def readBitsLoop.simps exampleGapTable_def initialScan_def
        mask_eq_exp_minus_1 drop_bit_eq_div)

lemma gap_record2:
  "recordSymbol 2 3
     \<lparr> currBits = 0x430C3, currBitCount = 6, currByte = 3,
       symbols = [1, 67],
       scanMinCodeLength = 1, scanMaxCodeLength = 3,
       codeCount = (replicate (MAX_CODE_LEN + 1) 0)[1 := 1, 3 := 1] \<rparr>
   = \<lparr> currBits = 0x430C3, currBitCount = 6, currByte = 3,
       symbols = [1, 67, 131],
       scanMinCodeLength = 1, scanMaxCodeLength = 3,
       codeCount = (replicate (MAX_CODE_LEN + 1) 0)[1 := 1, 3 := 2] \<rparr>"
  by (simp add: recordSymbol_def MAX_CODE_LEN_def numeral_2_eq_2[symmetric])

lemma gap_step2:
  "scanSymbols exampleGapTable 4 4 2
     \<lparr> currBits = 0x430, currBitCount = 4, currByte = 2,
       symbols = [1, 67],
       scanMinCodeLength = 1, scanMaxCodeLength = 3,
       codeCount = (replicate (MAX_CODE_LEN + 1) 0)[1 := 1, 3 := 1] \<rparr>
   = scanSymbols exampleGapTable 4 4 3
     \<lparr> currBits = 0x430C3, currBitCount = 6, currByte = 3,
       symbols = [1, 67, 131],
       scanMinCodeLength = 1, scanMaxCodeLength = 3,
       codeCount = (replicate (MAX_CODE_LEN + 1) 0)[1 := 1, 3 := 2] \<rparr>"
  by (subst scanSymbols_literal[OF _ _ gap_read2], simp, simp, simp, simp)
     (simp only: gap_record2, simp only: gap_next)

lemma gap_read3:
  "readCode 6 exampleGapTable
     \<lparr> currBits = 0x430C3, currBitCount = 6, currByte = 3,
       symbols = [1, 67, 131],
       scanMinCodeLength = 1, scanMaxCodeLength = 3,
       codeCount = (replicate (MAX_CODE_LEN + 1) 0)[1 := 1, 3 := 2] \<rparr>
   = (3,
     \<lparr> currBits = 0x430C3, currBitCount = 0, currByte = 3,
       symbols = [1, 67, 131],
       scanMinCodeLength = 1, scanMaxCodeLength = 3,
       codeCount = (replicate (MAX_CODE_LEN + 1) 0)[1 := 1, 3 := 2] \<rparr>)"
  by (simp add: readCode_def readBits_def readBitsLoop.simps exampleGapTable_def initialScan_def
        mask_eq_exp_minus_1 drop_bit_eq_div)

lemma gap_record3:
  "recordSymbol 3 3
     \<lparr> currBits = 0x430C3, currBitCount = 0, currByte = 3,
       symbols = [1, 67, 131],
       scanMinCodeLength = 1, scanMaxCodeLength = 3,
       codeCount = (replicate (MAX_CODE_LEN + 1) 0)[1 := 1, 3 := 2] \<rparr>
   = \<lparr> currBits = 0x430C3, currBitCount = 0, currByte = 3,
       symbols = [1, 67, 131, 195],
       scanMinCodeLength = 1, scanMaxCodeLength = 3,
       codeCount = (replicate (MAX_CODE_LEN + 1) 0)[1 := 1, 3 := 3] \<rparr>"
  by (simp add: recordSymbol_def MAX_CODE_LEN_def numeral_2_eq_2[symmetric])

lemma gap_step3:
  "scanSymbols exampleGapTable 4 4 3
     \<lparr> currBits = 0x430C3, currBitCount = 6, currByte = 3,
       symbols = [1, 67, 131],
       scanMinCodeLength = 1, scanMaxCodeLength = 3,
       codeCount = (replicate (MAX_CODE_LEN + 1) 0)[1 := 1, 3 := 2] \<rparr>
   = scanSymbols exampleGapTable 4 4 4
     \<lparr> currBits = 0x430C3, currBitCount = 0, currByte = 3,
       symbols = [1, 67, 131, 195],
       scanMinCodeLength = 1, scanMaxCodeLength = 3,
       codeCount = (replicate (MAX_CODE_LEN + 1) 0)[1 := 1, 3 := 3] \<rparr>"
  by (subst scanSymbols_literal[OF _ _ gap_read3], simp, simp, simp, simp)
     (simp only: gap_record3, simp only: gap_next)

lemma gap_read4:
  "readCode 6 exampleGapTable
     \<lparr> currBits = 0x430C3, currBitCount = 0, currByte = 3,
       symbols = [1, 67, 131, 195],
       scanMinCodeLength = 1, scanMaxCodeLength = 3,
       codeCount = (replicate (MAX_CODE_LEN + 1) 0)[1 := 1, 3 := 3] \<rparr>
   = (3,
     \<lparr> currBits = 0x430C30C, currBitCount = 2, currByte = 4,
       symbols = [1, 67, 131, 195],
       scanMinCodeLength = 1, scanMaxCodeLength = 3,
       codeCount = (replicate (MAX_CODE_LEN + 1) 0)[1 := 1, 3 := 3] \<rparr>)"
  by (simp add: readCode_def readBits_def readBitsLoop.simps exampleGapTable_def initialScan_def
        mask_eq_exp_minus_1 drop_bit_eq_div)

lemma gap_record4:
  "recordSymbol 4 3
     \<lparr> currBits = 0x430C30C, currBitCount = 2, currByte = 4,
       symbols = [1, 67, 131, 195],
       scanMinCodeLength = 1, scanMaxCodeLength = 3,
       codeCount = (replicate (MAX_CODE_LEN + 1) 0)[1 := 1, 3 := 3] \<rparr>
   = \<lparr> currBits = 0x430C30C, currBitCount = 2, currByte = 4,
       symbols = [1, 67, 131, 195, 259],
       scanMinCodeLength = 1, scanMaxCodeLength = 3,
       codeCount = (replicate (MAX_CODE_LEN + 1) 0)[1 := 1, 3 := 4] \<rparr>"
  by (simp add: recordSymbol_def MAX_CODE_LEN_def numeral_2_eq_2[symmetric])

lemma gap_step4:
  "scanSymbols exampleGapTable 4 4 4
     \<lparr> currBits = 0x430C3, currBitCount = 0, currByte = 3,
       symbols = [1, 67, 131, 195],
       scanMinCodeLength = 1, scanMaxCodeLength = 3,
       codeCount = (replicate (MAX_CODE_LEN + 1) 0)[1 := 1, 3 := 3] \<rparr>
   = scanSymbols exampleGapTable 4 4 5
     \<lparr> currBits = 0x430C30C, currBitCount = 2, currByte = 4,
       symbols = [1, 67, 131, 195, 259],
       scanMinCodeLength = 1, scanMaxCodeLength = 3,
       codeCount = (replicate (MAX_CODE_LEN + 1) 0)[1 := 1, 3 := 4] \<rparr>"
  by (subst scanSymbols_literal[OF _ _ gap_read4], simp, simp, simp, simp)
     (simp only: gap_record4, simp only: gap_next)

lemma scan_gap: "scanTable exampleGapTable 4 0 4 = Inr exampleGapScan"
proof -
  have "scanTable exampleGapTable 4 0 4 = scanSymbols exampleGapTable 4 4 0 initialScan"
    by (simp add: scanTable_def)
  also have "\<dots> = scanSymbols exampleGapTable 4 4 5 exampleGapScan"
    by (simp only: gap_step0 gap_step1 gap_step2 gap_step3 gap_step4 exampleGapScan_def)
  also have "\<dots> = Inr exampleGapScan"
    by (rule scanSymbols_done) simp
  finally show ?thesis .
qed

subsection \<open>The closed form\<close>

lemma roundDouble_small: "n < 2 ^ 53 \<Longrightarrow> roundDouble n = n"
  by (simp add: roundDouble_def)

lemma fold_round_exact:
  assumes "acc + sum_list (map t ks) < 2 ^ 53"
  shows "fold (\<lambda>k tmp. roundDouble (tmp + t k)) ks acc = acc + sum_list (map t ks)"
  using assms
proof (induction ks arbitrary: acc)
  case Nil
  then show ?case by simp
next
  case (Cons k ks)
  from Cons.prems have "acc + t k < 2 ^ 53" by simp
  then have "roundDouble (acc + t k) = acc + t k" by (rule roundDouble_small)
  with Cons.IH[of "acc + t k"] Cons.prems show ?case by (simp add: add.assoc)
qed

lemma ceilDiv_eq:
  assumes "0 < b"
  shows "ceilDiv a b = a div b + (if a mod b = 0 then 0 else 1)"
proof -
  define q where "q = a div b"
  define r where "r = a mod b"
  have a: "a = q * b + r" and r: "r < b" using assms by (simp_all add: q_def r_def)
  show ?thesis
  proof (cases "r = 0")
    case True
    have "a + b - 1 = (b - 1) + q * b" using a True assms by simp
    then have "(a + b - 1) div b = (b - 1) div b + q" using assms by (simp only: div_mult_self1)
    then show ?thesis using True assms by (simp add: ceilDiv_def q_def r_def)
  next
    case False
    have "a + b - 1 = (r - 1) + (q + 1) * b" using a False by simp
    then have "(a + b - 1) div b = (r - 1) div b + (q + 1)"
      using assms by (simp only: div_mult_self1)
    moreover have "(r - 1) div b = 0" using r by simp
    ultimately show ?thesis using False by (simp add: ceilDiv_def q_def r_def)
  qed
qed

lemma ceilDiv_double:
  assumes "0 < b"
  shows "ceilDiv (2 * a) (2 * b) = ceilDiv a b"
  using assms by (simp add: ceilDiv_eq mult_mod_right[symmetric])

lemma ceilDiv_le:
  assumes "0 < b"
  shows "ceilDiv a b \<le> a"
proof (cases "a mod b = 0")
  case True
  then show ?thesis using assms by (simp add: ceilDiv_eq)
next
  case False
  have "a div b + 1 \<le> a div b * b + a mod b" using False assms
    by (metis One_nat_def Suc_leI add_mono bot_nat_0.not_eq_extremum mult.right_neutral
          mult_le_mono2)
  then show ?thesis using False assms by (simp add: ceilDiv_eq)
qed

lemma sumTmp_exact:
  assumes "(\<Sum>k = l + 1 ..< maxLen + 1. cc ! k * 2 ^ (maxLen - k + 1)) < 2 ^ 53"
  shows "sumTmp cc maxLen l = (\<Sum>k = l + 1 ..< maxLen + 1. cc ! k * 2 ^ (maxLen - k + 1))"
proof -
  define t where "t k = cc ! k * 2 ^ (maxLen - k + 1)" for k :: nat
  have small: "cc ! k < 2 ^ 53" if "k \<in> {l + 1 ..< maxLen + 1}" for k
  proof -
    have "cc ! k \<le> t k" by (simp add: t_def)
    also have "t k \<le> sum t {l + 1 ..< maxLen + 1}"
      using that by (intro member_le_sum) simp_all
    finally show ?thesis using assms by (simp add: t_def)
  qed
  have "map (countTmp cc maxLen) [l + 1 ..< maxLen + 1] = map t [l + 1 ..< maxLen + 1]"
    using small by (intro map_cong) (auto simp: countTmp_def t_def roundDouble_small)
  then have "sum_list (map (countTmp cc maxLen) [l + 1 ..< maxLen + 1]) = sum t {l + 1 ..< maxLen + 1}"
    by (simp add: interv_sum_list_conv_sum_set_nat)
  with fold_round_exact[of 0 "countTmp cc maxLen" "[l + 1 ..< maxLen + 1]"] assms
  show ?thesis by (simp add: sumTmp_def t_def)
qed

lemma baseValue_exact:
  assumes "l \<le> maxLen"
    and "(\<Sum>k = l + 1 ..< maxLen + 1. cc ! k * 2 ^ (maxLen - k + 1)) < 2 ^ 53"
  shows "baseValue cc maxLen l = closedFormBase cc maxLen l"
proof -
  have "(\<Sum>k = l + 1 ..< maxLen + 1. cc ! k * 2 ^ (maxLen - k + 1))
      = 2 * (\<Sum>k = l + 1 ..< maxLen + 1. cc ! k * 2 ^ (maxLen - k))"
    by (simp add: sum_distrib_left mult.assoc mult.left_commute)
  then have "baseValue cc maxLen l
      = ceilDiv (2 * (\<Sum>k = l + 1 ..< maxLen + 1. cc ! k * 2 ^ (maxLen - k))) (2 * 2 ^ (maxLen - l))"
    using sumTmp_exact[OF assms(2)] by (simp add: baseValue_def ceilDiv_def)
  then show ?thesis by (simp add: ceilDiv_double closedFormBase_def)
qed

lemma closedFormBase_small:
  assumes "(\<Sum>k = l + 1 ..< maxLen + 1. cc ! k * 2 ^ (maxLen - k + 1)) < 2 ^ 53"
  shows "closedFormBase cc maxLen l < 2 ^ 53"
proof -
  have "closedFormBase cc maxLen l \<le> (\<Sum>k = l + 1 ..< maxLen + 1. cc ! k * 2 ^ (maxLen - k))"
    unfolding closedFormBase_def by (rule ceilDiv_le) simp
  also have "\<dots> \<le> (\<Sum>k = l + 1 ..< maxLen + 1. cc ! k * 2 ^ (maxLen - k + 1))"
    by (intro sum_mono) simp
  finally show ?thesis using assms by simp
qed

lemma word_of_nat_neq_allOnes:
  assumes "n < 2 ^ 53"
  shows "(word_of_nat n :: u64) \<noteq> allOnes"
proof
  assume "(word_of_nat n :: u64) = allOnes"
  then have "unat (word_of_nat n :: u64) = unat allOnes" by simp
  moreover have "unat (word_of_nat n :: u64) = n" using assms by (simp add: unat_of_nat)
  ultimately show False using assms by (simp add: allOnes_def)
qed

lemma exampleGapCounts_nth:
  "codeCount exampleGapScan ! 2 = 0" "codeCount exampleGapScan ! 3 = 4"
  by (simp_all add: exampleGapScan_def MAX_CODE_LEN_def)

lemma exampleGapBase: "baseValue (codeCount exampleGapScan) 3 2 = 2"
  by (simp add: baseValue_def sumTmp_def countTmp_def exampleGapCounts_nth roundDouble_def)

subsection \<open>Where the \<^verbatim>\<open>double\<close> computation leaves the closed form\<close>

lemma exampleDeepCounts_nth:
  "k \<le> MAX_CODE_LEN \<Longrightarrow>
   exampleDeepCounts ! k = (if k = 57 then 1 else if k = 5 then 2 else if k = 4 then 1 else 0)"
  by (simp add: exampleDeepCounts_def MAX_CODE_LEN_def nth_list_update del: replicate_Suc)

lemma countTmp_deep:
  "k \<le> MAX_CODE_LEN \<Longrightarrow>
   countTmp exampleDeepCounts 57 k = (if k = 57 then 2 else if k = 5 then 2 ^ 54 else if k = 4 then 2 ^ 54 else 0)"
  by (simp add: countTmp_def exampleDeepCounts_nth roundDouble_def)

lemma fold_zero:
  assumes "\<forall>k \<in> set ks. t k = 0" and "roundDouble acc = acc"
  shows "fold (\<lambda>k tmp. roundDouble (tmp + t k)) ks acc = acc"
  using assms by (induction ks) simp_all

lemma bitLength_deep: "bitLength (2 ^ 54 + 2) = 55"
  by (simp add: bitLength.simps)

lemma roundDouble_deep: "roundDouble (2 ^ 54 + 2) = 2 ^ 54" "roundDouble (2 ^ 54) = 2 ^ 54"
  by (simp_all add: roundDouble_def bitLength.simps Let_def)

lemma sumTmp_deep: "sumTmp exampleDeepCounts 57 4 = 2 ^ 54"
proof -
  define f where "f = (\<lambda>k tmp. roundDouble (tmp + countTmp exampleDeepCounts 57 k))"
  have split: "[4 + 1 ..< 57 + 1] = 5 # [6 ..< 57] @ [57]"
    by (simp add: upt_rec[of 5] upt_Suc_append[symmetric] del: upt_Suc)
  have z: "\<forall>k \<in> set [6 ..< 57]. countTmp exampleDeepCounts 57 k = 0"
    by (simp add: countTmp_deep MAX_CODE_LEN_def)
  have "fold f (5 # [6 ..< 57] @ [57]) 0 = f 57 (fold f [6 ..< 57] (f 5 0))"
    by (simp only: fold_simps fold_append comp_def)
  also have "f 5 0 = 2 ^ 54"
    by (simp add: f_def countTmp_deep MAX_CODE_LEN_def roundDouble_deep del: power_numeral)
  also have "fold f [6 ..< 57] (2 ^ 54) = 2 ^ 54"
    unfolding f_def by (rule fold_zero[OF z]) (rule roundDouble_deep)
  also have "f 57 (2 ^ 54) = 2 ^ 54"
    using roundDouble_deep(1) by (simp add: f_def countTmp_deep MAX_CODE_LEN_def)
  finally show ?thesis unfolding sumTmp_def split f_def .
qed

lemma base_rounding_example:
  "baseValue exampleDeepCounts 57 4 = 1" "closedFormBase exampleDeepCounts 57 4 = 2"
proof -
  show "baseValue exampleDeepCounts 57 4 = 1"
    by (simp add: baseValue_def sumTmp_deep)
  define g where "g k = exampleDeepCounts ! k * 2 ^ (57 - k)" for k :: nat
  have split: "[4 + 1 ..< 57 + 1] = 5 # [6 ..< 57] @ [57]"
    by (simp add: upt_rec[of 5] upt_Suc_append[symmetric] del: upt_Suc)
  have z: "\<forall>k \<in> set [6 ..< 57]. g k = 0"
    by (simp add: g_def exampleDeepCounts_nth MAX_CODE_LEN_def)
  have "sum g {4 + 1 ..< 57 + 1} = sum_list (map g [4 + 1 ..< 57 + 1])"
    by (simp only: interv_sum_list_conv_sum_set_nat set_upt)
  also have "\<dots> = g 5 + sum_list (map g [6 ..< 57]) + g 57"
    unfolding split by (simp only: list.map map_append sum_list.Cons sum_list.append sum_list.Nil)
  also have "sum_list (map g [6 ..< 57]) = 0" using z by (simp only: sum_list_eq_0_iff) auto
  also have "g 5 + 0 + g 57 = 2 ^ 53 + 1"
    by (simp add: g_def exampleDeepCounts_nth MAX_CODE_LEN_def)
  finally show "closedFormBase exampleDeepCounts 57 4 = 2"
    by (simp add: closedFormBase_def ceilDiv_def g_def)
qed

section \<open>The number of symbols\<close>

text \<open>
  C5. For every code book that the constructor accepts, \<^verbatim>\<open>_numSymbols\<close> is the number of
  symbols between \<open>minSymbol\<close> and \<open>maxSymbol\<close> whose code length is not zero, which is the
  length of the vector \<open>symbols\<close> after the scan. The sum that the constructor forms leaves
  out \<^verbatim>\<open>codeCount[MAX_CODE_LEN]\<close>, but a code book with a code of that length is never
  accepted: the ids run from 0 to the number of coded symbols minus one, so the last symbol
  of the shortest length gets an id that is not below \<^verbatim>\<open>_numSymbols\<close> and the constructor
  throws. The number of coded symbols is assumed to fit the \<^verbatim>\<open>int\<close> that holds \<^verbatim>\<open>_numSymbols\<close>.
\<close>

theorem numSymbols_counts_every_symbol:
  assumes ok: "newFastHufDecoder table numBytes minSymbol maxSymbol rleSymbol' = Inr (d, tableEnd)"
    and scan: "scanTable table numBytes minSymbol maxSymbol = Inr st"
    and small: "length (symbols st) < 2 ^ 31"
  shows "numSymbols d = length (symbols st) \<and> codeCount st ! MAX_CODE_LEN = 0"
proof -
  define xs where "xs = map codeLenOf (symbols st)"
  define cc where "cc = codeCount st"
  define minLen where "minLen = scanMinCodeLength st"
  define maxLen where "maxLen = scanMaxCodeLength st"
  define n where "n = sum_list (take MAX_CODE_LEN cc)"
  define offset where "offset = computeOffset cc minLen maxLen"
  have inv: "scanInv st" by (rule scanTable_scanInv[OF scan])
  then have len: "length cc = MAX_CODE_LEN + 1"
    and rng: "\<forall>x \<in> set xs. 1 \<le> x \<and> x \<le> MAX_CODE_LEN \<and> minLen \<le> x \<and> x \<le> maxLen"
    and cnt: "\<forall>l \<le> MAX_CODE_LEN. cc ! l = count_list xs l"
    and ne: "symbols st \<noteq> [] \<longrightarrow> minLen \<in> set xs \<and> maxLen \<in> set xs"
    unfolding scanInv_def xs_def cc_def minLen_def maxLen_def by (auto intro: rev_image_eqI)
  have total: "(\<Sum>l = 0 ..< MAX_CODE_LEN + 1. cc ! l) = length xs"
  proof -
    have "(\<Sum>l = 0 ..< MAX_CODE_LEN + 1. cc ! l) = (\<Sum>l = 0 ..< MAX_CODE_LEN + 1. count_list xs l)"
      using cnt by (intro sum.cong) auto
    also have "\<dots> = length xs" using rng by (intro sum_count_list) auto
    finally show ?thesis .
  qed
  have n_eq: "n = (\<Sum>l = 0 ..< MAX_CODE_LEN. cc ! l)"
    unfolding n_def using len by (intro sum_list_take_nth) simp
  have split: "length xs = n + cc ! MAX_CODE_LEN"
    using total n_eq by simp
  from ok scan obtain ids where
    fill: "fillIdToSymbol n (symbols st) (initialMapping offset minLen maxLen) (replicate n 0) = Inr ids"
    and nd: "numSymbols d = n"
    by (auto simp: newFastHufDecoder_def Let_def n_def cc_def offset_def minLen_def maxLen_def buildTables_def
             split: sum.splits)
  have "cc ! MAX_CODE_LEN = 0"
  proof (cases "symbols st = []")
    case True
    then show ?thesis using split by (simp add: xs_def)
  next
    case False
    with ne have mn: "minLen \<in> set xs" and mx: "maxLen \<in> set xs" by simp_all
    with rng have b: "1 \<le> minLen" "minLen \<le> maxLen" "maxLen \<le> MAX_CODE_LEN" by auto
    have nlt: "n < 2 ^ 64" using split small by (simp add: xs_def)
    have pos: "0 < count_list (map codeLenOf (symbols st)) minLen"
      using count_list_pos[OF mn] unfolding xs_def .
    have ml: "minLen < length (initialMapping offset minLen maxLen)"
      using b by (simp add: initialMapping_def)
    have all: "\<forall>p \<in> set (symbols st). codeLenOf p < length (initialMapping offset minLen maxLen)"
      using rng by (auto simp: initialMapping_def xs_def)
    from fill_bound[OF fill nlt all ml pos]
    have bound: "unat (initialMapping offset minLen maxLen ! minLen) + count_list xs minLen \<le> n"
      by (simp add: xs_def)
    have m0: "initialMapping offset minLen maxLen ! minLen = offset ! minLen"
      using b by (simp add: initialMapping_def nth_append del: upt_Suc)
    have "offset ! minLen = word_of_nat (\<Sum>k = Suc minLen ..< Suc maxLen. cc ! k)"
      unfolding offset_def using computeOffset_nth[OF b(3) b(2), of cc minLen] by simp
    moreover have above: "(\<Sum>k = Suc minLen ..< Suc maxLen. cc ! k) \<le> length xs"
    proof -
      have "(\<Sum>k = Suc minLen ..< Suc maxLen. cc ! k) \<le> (\<Sum>l = 0 ..< MAX_CODE_LEN + 1. cc ! l)"
        using b by (intro sum_mono2) auto
      with total show ?thesis by simp
    qed
    ultimately have u: "unat (offset ! minLen) = (\<Sum>k = Suc minLen ..< Suc maxLen. cc ! k)"
      using small by (simp add: unat_of_nat xs_def)
    have "(\<Sum>k = minLen ..< Suc maxLen. cc ! k) = length xs"
    proof -
      have "(\<Sum>k = minLen ..< Suc maxLen. cc ! k) = (\<Sum>k = minLen ..< Suc maxLen. count_list xs k)"
        using cnt b by (intro sum.cong) auto
      also have "\<dots> = length xs" using rng by (intro sum_count_list) auto
      finally show ?thesis .
    qed
    moreover have "(\<Sum>k = minLen ..< Suc maxLen. cc ! k)
        = cc ! minLen + (\<Sum>k = Suc minLen ..< Suc maxLen. cc ! k)"
      using b by (intro sum.atLeast_Suc_lessThan) simp
    moreover have "cc ! minLen = count_list xs minLen" using cnt b by simp
    ultimately have "length xs \<le> n" using bound m0 u by simp
    with split show ?thesis by simp
  qed
  with split nd show ?thesis by (simp add: xs_def cc_def)
qed


theorem numSymbols_counts_every_symbol_witness:
  "numSymbols exampleDecoder = 2 \<and> length (symbols exampleScan) = 2 \<and>
   codeCount exampleScan ! MAX_CODE_LEN = 0"
  using numSymbols_counts_every_symbol[OF exampleConstruction scan_example]
  by (simp add: exampleScan_def)

section \<open>Decoding nothing\<close>

text \<open>
  C10. With \<^verbatim>\<open>numDstElems = 0\<close> the loop of \<^verbatim>\<open>decode\<close> is not entered, so for every decoder,
  source and destination the destination comes back as it was, and the outcome depends on
  the number of bits only: the exception for too few bits below 128, success at exactly
  128, the exception for trailing data above 128.
\<close>

theorem decode_zero_elements:
  "decode d src numSrcBits' dst' 0 =
     (if numSrcBits' < 128 then (Some InsufficientBits, dst')
      else if numSrcBits' = 128 then (None, dst')
      else (Some TrailingData, dst'))"
  by (simp add: decode_def decodeLoop.simps)

section \<open>Runs of the previous symbol\<close>

text \<open>
  C8, as the code behaves. When the loop of \<^verbatim>\<open>decode\<close> has found the symbol \<^verbatim>\<open>_rleSymbol\<close>, it
  makes sure that 8 bits are in the buffer (the state \<open>s1\<close>) and reads the top 8 bits as
  \<open>rleCount\<close>, a number from 0 to 255. The three checks are made one after the other:
  \<open>RleBeforeFirst\<close> is raised exactly when \<^verbatim>\<open>dstIdx < 1\<close>; \<open>RleOverrun\<close> exactly when
  \<^verbatim>\<open>dstIdx >= 1\<close> and \<^verbatim>\<open>dstIdx + rleCount > numDstElems\<close>; \<open>RleInvalid\<close> exactly when neither
  holds and \<^verbatim>\<open>rleCount <= 0\<close>. Otherwise, on a destination of at least \<^verbatim>\<open>numDstElems\<close>
  elements, the elements from \<^verbatim>\<open>dstIdx\<close> to \<^verbatim>\<open>dstIdx + rleCount - 1\<close> become copies of
  \<^verbatim>\<open>dst[dstIdx - 1]\<close>, the index advances by \<open>rleCount\<close> and the 8 bits of the count leave
  the buffer. The decoder that the constructor builds from \<open>exampleTable\<close> with 7 as the
  run-length symbol decodes the code of 5, the code of 7 and the byte \<open>0x03\<close> to
  \<open>[5, 5, 5, 5]\<close>.
\<close>

theorem rle_semantics:
  assumes ensure: "(if bufferNumBits s < 8 then refillTo64 src s else Inr s) = Inr s1"
    and count: "rleCount = uint (drop_bit 56 (buffer s1))"
  shows "(emitSymbol d src numDstElems (rleSymbol d) s = Inl RleBeforeFirst \<longleftrightarrow> dstIdx s < 1)
   \<and> (emitSymbol d src numDstElems (rleSymbol d) s = Inl RleOverrun \<longleftrightarrow>
        1 \<le> dstIdx s \<and> dstIdx s + rleCount > numDstElems)
   \<and> (emitSymbol d src numDstElems (rleSymbol d) s = Inl RleInvalid \<longleftrightarrow>
        1 \<le> dstIdx s \<and> dstIdx s + rleCount \<le> numDstElems \<and> rleCount \<le> 0)
   \<and> (1 \<le> dstIdx s \<and> dstIdx s + rleCount \<le> numDstElems \<and> 0 < rleCount
        \<and> numDstElems \<le> int (length (dst s)) \<longrightarrow>
        emitSymbol d src numDstElems (rleSymbol d) s =
          Inr (s1\<lparr> dst := take (nat (dstIdx s)) (dst s)
                          @ replicate (nat rleCount) (dst s ! nat (dstIdx s - 1))
                          @ drop (nat (dstIdx s + rleCount)) (dst s),
                    dstIdx := dstIdx s + rleCount,
                    buffer := push_bit 8 (buffer s1),
                    bufferNumBits := bufferNumBits s1 - 8 \<rparr>))
   \<and> 0 \<le> rleCount \<and> rleCount < 256
   \<and> (case newFastHufDecoder exampleTable 3 5 7 7 of
         Inl err \<Rightarrow> False
       | Inr (d', tableEnd) \<Rightarrow> decode d' examplePayload 128 [0, 0, 0, 0] 4 = (None, [5, 5, 5, 5]))"
proof -
  note f = ensure_fields[OF ensure]
  have e: "emitSymbol d src numDstElems (rleSymbol d) s =
      (if dstIdx s < 1 then Inl RleBeforeFirst
       else if dstIdx s + rleCount > numDstElems then Inl RleOverrun
       else if rleCount \<le> 0 then Inl RleInvalid
       else Inr (s1\<lparr> dst := copyRun (dst s) (dstIdx s) 0 (nat rleCount),
                      dstIdx := dstIdx s + rleCount,
                      buffer := push_bit 8 (buffer s1),
                      bufferNumBits := bufferNumBits s1 - 8 \<rparr>))"
    using ensure by (simp add: emitSymbol_def rleRun_def Let_def count f)
  have rng: "0 \<le> rleCount" "rleCount < 256"
    by (simp_all add: count top_byte_range)
  have cases13: "(emitSymbol d src numDstElems (rleSymbol d) s = Inl RleBeforeFirst \<longleftrightarrow> dstIdx s < 1)"
    "(emitSymbol d src numDstElems (rleSymbol d) s = Inl RleOverrun \<longleftrightarrow>
        1 \<le> dstIdx s \<and> dstIdx s + rleCount > numDstElems)"
    "(emitSymbol d src numDstElems (rleSymbol d) s = Inl RleInvalid \<longleftrightarrow>
        1 \<le> dstIdx s \<and> dstIdx s + rleCount \<le> numDstElems \<and> rleCount \<le> 0)"
    unfolding e by auto
  have run: "emitSymbol d src numDstElems (rleSymbol d) s =
          Inr (s1\<lparr> dst := take (nat (dstIdx s)) (dst s)
                          @ replicate (nat rleCount) (dst s ! nat (dstIdx s - 1))
                          @ drop (nat (dstIdx s + rleCount)) (dst s),
                    dstIdx := dstIdx s + rleCount,
                    buffer := push_bit 8 (buffer s1),
                    bufferNumBits := bufferNumBits s1 - 8 \<rparr>)"
    if "1 \<le> dstIdx s" "dstIdx s + rleCount \<le> numDstElems" "0 < rleCount"
       "numDstElems \<le> int (length (dst s))"
  proof -
    have "nat (dstIdx s) + nat rleCount \<le> length (dst s)" using that by linarith
    from copyRun_eq[OF that(1) this] that
    have "copyRun (dst s) (dstIdx s) 0 (nat rleCount) =
        take (nat (dstIdx s)) (dst s) @ replicate (nat rleCount) (dst s ! nat (dstIdx s - 1))
          @ drop (nat (dstIdx s + rleCount)) (dst s)"
      by (simp add: nat_add_distrib)
    with that show ?thesis unfolding e by simp
  qed
  have ex: "(case newFastHufDecoder exampleTable 3 5 7 7 of
         Inl err \<Rightarrow> False
       | Inr (d', tableEnd) \<Rightarrow> decode d' examplePayload 128 [0, 0, 0, 0] 4 = (None, [5, 5, 5, 5]))"
    by (simp add: exampleConstruction decode_example_run numeral_3_eq_3)
  from cases13 run rng ex show ?thesis by blast
qed

theorem rle_semantics_witness:
  "emitSymbol exampleDecoder examplePayload 4 7
     \<lparr> buffer = 0x0300000000000000, bufferNumBits = 62, bufferBack = 0, bufferBackNumBits = 64,
       srcByte = 16, numSrcBits = 0, dst = [5, 0, 0, 0], dstIdx = 1 \<rparr>
   = Inr \<lparr> buffer = 0, bufferNumBits = 54, bufferBack = 0, bufferBackNumBits = 64,
           srcByte = 16, numSrcBits = 0, dst = [5, 5, 5, 5], dstIdx = 4 \<rparr>"
proof -
  define s where "s = \<lparr> buffer = 0x0300000000000000, bufferNumBits = 62, bufferBack = 0,
       bufferBackNumBits = 64, srcByte = 16, numSrcBits = 0, dst = [5, 0, 0, 0], dstIdx = 1 \<rparr>"
  have en: "(if bufferNumBits s < 8 then refillTo64 examplePayload s else Inr s) = Inr s"
    by (simp add: s_def)
  have c: "3 = uint (drop_bit 56 (buffer s))" by (simp add: s_def)
  from rle_semantics[OF en c, of exampleDecoder 4] show ?thesis
    unfolding s_def by (simp add: exampleDecoder_fields numeral_3_eq_3)
qed

text \<open>
  C8, as the claim states it: the claim expects \<open>RleOverrun\<close> exactly when
  \<^verbatim>\<open>dstIdx + rleCount > numDstElems\<close>. With one element to decode, a stream that starts with
  the run-length symbol and the count 3 has \<^verbatim>\<open>dstIdx + rleCount = 3 > 1\<close>, and \<^verbatim>\<open>decode\<close> raises
  \<open>RleBeforeFirst\<close>, since that check comes first.
\<close>

theorem rle_semantics_counterexample:
  "decode exampleDecoder exampleRunFirst 128 [0] 1 = (Some RleBeforeFirst, [0])"
  by (simp add: decode_def READ64_exampleRunFirst decodeLoop.simps example_run_first)

section \<open>The destination after an error\<close>




section \<open>The entries of the base table\<close>

text \<open>
  C6, as the code behaves. After the scan, for every code length \<open>L\<close> up to \<^verbatim>\<open>MAX_CODE_LEN\<close>:
  a length with \<open>code_count[L] > 0\<close> lies between \<^verbatim>\<open>_minCodeLength\<close> and \<^verbatim>\<open>_maxCodeLength\<close>;
  outside this range \<^verbatim>\<open>base[L]\<close> keeps the sentinel \<^verbatim>\<open>0xffffffffffffffff\<close>, and so does
  \<^verbatim>\<open>_ljBase[L]\<close>; inside the range, whether \<open>code_count[L]\<close> is zero or not, \<^verbatim>\<open>base[L]\<close> is
  the closed form of the specification and is not the sentinel, as long as the sum that the
  constructor forms for \<open>L\<close> is below \<open>2\<^sup>5\<^sup>3\<close>, so that the \<^verbatim>\<open>double\<close> arithmetic is exact.
  (\<open>base_rounding_example\<close> shows a count table beyond that bound on which the \<^verbatim>\<open>double\<close>
  computation and the closed form differ.)
\<close>

theorem base_table:
  assumes scan: "scanTable table numBytes minSymbol maxSymbol = Inr st"
    and L: "L \<le> MAX_CODE_LEN"
    and cc: "cc = codeCount st"
    and minLen: "minLen = scanMinCodeLength st"
    and maxLen: "maxLen = scanMaxCodeLength st"
    and base: "base = computeBase cc minLen maxLen"
  shows "(0 < cc ! L \<longrightarrow> minLen \<le> L \<and> L \<le> maxLen)
   \<and> (L < minLen \<or> maxLen < L \<longrightarrow> base ! L = allOnes \<and> leftJustifiedBase base ! L = allOnes)
   \<and> (minLen \<le> L \<and> L \<le> maxLen
        \<and> (\<Sum>k = L + 1 ..< maxLen + 1. cc ! k * 2 ^ (maxLen - k + 1)) < 2 ^ 53 \<longrightarrow>
        base ! L = word_of_nat (closedFormBase cc maxLen L) \<and> base ! L \<noteq> allOnes)"
proof (intro conjI impI)
  have inv: "scanInv st" by (rule scanTable_scanInv[OF scan])
  assume pos: "0 < cc ! L"
  from inv L have "cc ! L = count_list (map codeLenOf (symbols st)) L"
    by (simp add: scanInv_def cc)
  with pos have "L \<in> set (map codeLenOf (symbols st))"
    by (metis count_list_0_iff less_numeral_extra(3))
  then obtain p where "p \<in> set (symbols st)" "codeLenOf p = L" by auto
  with inv show "minLen \<le> L" "L \<le> maxLen" by (auto simp: scanInv_def minLen maxLen)
next
  assume out: "L < minLen \<or> maxLen < L"
  then show b: "base ! L = allOnes" using L by (auto simp: base computeBase_nth)
  then show "leftJustifiedBase base ! L = allOnes" using L by (simp add: leftJustifiedBase_nth)
next
  assume a: "minLen \<le> L \<and> L \<le> maxLen
        \<and> (\<Sum>k = L + 1 ..< maxLen + 1. cc ! k * 2 ^ (maxLen - k + 1)) < 2 ^ 53"
  then have "base ! L = word_of_nat (baseValue cc maxLen L)" using L by (simp add: base computeBase_nth)
  with a show e: "base ! L = word_of_nat (closedFormBase cc maxLen L)"
    by (simp add: baseValue_exact)
  from a show "base ! L \<noteq> allOnes"
    unfolding e by (intro word_of_nat_neq_allOnes closedFormBase_small) simp
qed

theorem base_table_witness:
  "computeBase (codeCount exampleGapScan) 1 3 ! 2
     = word_of_nat (closedFormBase (codeCount exampleGapScan) 3 2)
   \<and> closedFormBase (codeCount exampleGapScan) 3 2 = 2"
proof -
  have L: "(2 :: nat) \<le> MAX_CODE_LEN" by (simp add: MAX_CODE_LEN_def)
  have m: "1 = scanMinCodeLength exampleGapScan" "3 = scanMaxCodeLength exampleGapScan"
    by (simp_all add: exampleGapScan_def)
  have i: "{2 + 1 ..< 3 + 1} = {3 :: nat}" by auto
  have s: "(\<Sum>k = 2 + 1 ..< 3 + 1. codeCount exampleGapScan ! k * 2 ^ (3 - k + 1)) < (2 :: nat) ^ 53"
    unfolding i by (simp add: exampleGapCounts_nth)
  have c: "closedFormBase (codeCount exampleGapScan) 3 2 = 2"
    using baseValue_exact[of 2 3 "codeCount exampleGapScan"] s by (simp add: exampleGapBase)
  from base_table[OF scan_gap L refl m refl] s c show ?thesis by simp
qed

text \<open>
  C6, as the claim states it: the claim expects the sentinel in \<^verbatim>\<open>base[L]\<close> for every \<open>L\<close>
  with \<open>code_count[L] = 0\<close>, also between the shortest and the longest length. In the code
  book with the lengths \<open>1, 3, 3, 3, 3\<close> no code has length 2, and \<^verbatim>\<open>base[2]\<close> is 2.
\<close>

theorem base_table_counterexample:
  "scanTable exampleGapTable 4 0 4 = Inr exampleGapScan
   \<and> codeCount exampleGapScan ! 2 = 0
   \<and> computeBase (codeCount exampleGapScan) (scanMinCodeLength exampleGapScan)
        (scanMaxCodeLength exampleGapScan) ! 2 = 2
   \<and> (2 :: u64) \<noteq> allOnes"
  by (simp add: scan_gap exampleGapCounts_nth computeBase_nth MAX_CODE_LEN_def exampleGapBase
        allOnes_def exampleGapScan_def[THEN arg_cong, of scanMinCodeLength]
        exampleGapScan_def[THEN arg_cong, of scanMaxCodeLength])

end
